theory Spec2Isabelle
  imports Main "HOL-Library.Word" "HOL-Library.Multiset"
begin

section \<open>Machine types\<close>

text \<open>
  The dumper (\<^verbatim>\<open>src/depak/main.cpp\<close>) works on \<^verbatim>\<open>uint8_t\<close>, \<^verbatim>\<open>uint32_t\<close> and
  \<^verbatim>\<open>uint64_t\<close> values read from a little-endian file. They are words of the same width,
  so that every addition and multiplication wraps as in the program.
\<close>

type_synonym u8 = "8 word"
type_synonym u32 = "32 word"
type_synonym u64 = "64 word"

text \<open>The bytes of a little-endian integer, lowest byte first.\<close>

definition le32 :: "u8 list \<Rightarrow> u32" where
  "le32 bs = foldr (\<lambda>b acc. ucast b + 256 * acc) bs 0"

definition le64 :: "u8 list \<Rightarrow> u64" where
  "le64 bs = foldr (\<lambda>b acc. ucast b + 256 * acc) bs 0"

text \<open>A \<^verbatim>\<open>char\<close> of a \<^verbatim>\<open>std::string\<close> and the byte that stores it.\<close>

definition to_char :: "u8 \<Rightarrow> char" where
  "to_char b = char_of (unat b)"

definition to_byte :: "char \<Rightarrow> u8" where
  "to_byte c = of_char c"

section \<open>The structures of the archive\<close>

record pakheader_t =
  Signature :: u32
  IsValid :: u32
  Unknown00 :: u32
  Unknown01 :: u32
  EntriesOffset :: u64
  Unknown02 :: u32
  Unknown03 :: u32

text \<open>\<^verbatim>\<open>sizeof(pakheader_t)\<close>: four 32-bit fields, one 64-bit field, two 32-bit fields.\<close>

definition sizeof_pakheader_t :: nat where
  "sizeof_pakheader_t = 32"

text \<open>
  \<^verbatim>\<open>sizeof(pakfileentry_t)\<close> is 12 and \<^verbatim>\<open>sizeof(pakfilename_t)\<close> is 8: the flexible
  array member \<^verbatim>\<open>Name[]\<close> has no size.
\<close>

definition sizeof_pakfileentry_t :: nat where
  "sizeof_pakfileentry_t = 12"

definition sizeof_pakfilename_t :: nat where
  "sizeof_pakfilename_t = 8"

text \<open>
  The program keeps a file entry as \<^verbatim>\<open>std::tuple<uint32_t, uint32_t, uint32_t>\<close>
  (Crc, Position, Size) and a name entry as \<^verbatim>\<open>std::tuple<uint32_t, std::string>\<close>
  (FileId, Name).
\<close>

type_synonym file_entry = "u32 \<times> u32 \<times> u32"
type_synonym string_entry = "u32 \<times> string"

definition Crc :: "file_entry \<Rightarrow> u32" where
  "Crc e = fst e"

definition Position :: "file_entry \<Rightarrow> u32" where
  "Position e = fst (snd e)"

definition Size :: "file_entry \<Rightarrow> u32" where
  "Size e = snd (snd e)"

definition KaikoCompressedLE :: u32 where
  "KaikoCompressedLE = 0x6C52414B"

definition MAX_PATH :: nat where
  "MAX_PATH = 260"

section \<open>The opened file\<close>

text \<open>
  A \<^verbatim>\<open>FILE*\<close> opened for reading is the bytes of the file and the read cursor. The field
  \<open>seeks\<close> is a history of every offset handed to \<^verbatim>\<open>_fseeki64\<close>, kept so that the
  offsets the program asks for can be stated; the program never reads it.
\<close>

record FILE =
  content :: "u8 list"
  cursor :: nat
  seeks :: "nat list"

text \<open>
  \<^verbatim>\<open>_fseeki64(f, offset, SEEK_SET)\<close>: the argument is a signed 64-bit integer, so an
  unsigned offset of \<open>2^63\<close> or more arrives negative; the call fails and the cursor stays.
  A seek past the end of the file succeeds and later reads find nothing.
\<close>

definition fseeki64 :: "FILE \<Rightarrow> u64 \<Rightarrow> FILE" where
  "fseeki64 f offset =
     (if unat offset < 2 ^ 63
      then f\<lparr>cursor := unat offset, seeks := seeks f @ [unat offset]\<rparr>
      else f\<lparr>seeks := seeks f @ [unat offset]\<rparr>)"

text \<open>
  \<^verbatim>\<open>fread(buf, 1, n, f)\<close> into a buffer of \<open>n\<close> zero bytes: the bytes that the file still
  has are copied, the rest of the buffer stays zero, and the cursor moves by the number
  of bytes copied. Every buffer the program reads into is zero-initialised, and the
  program never looks at the count \<^verbatim>\<open>fread\<close> returns.
\<close>

definition fread :: "FILE \<Rightarrow> nat \<Rightarrow> u8 list \<times> FILE" where
  "fread f n =
     (let got = take n (drop (cursor f) (content f))
      in (got @ replicate (n - length got) 0, f\<lparr>cursor := cursor f + length got\<rparr>))"

definition read_u32 :: "FILE \<Rightarrow> u32 \<times> FILE" where
  "read_u32 f = (case fread f 4 of (bs, f') \<Rightarrow> (le32 bs, f'))"

section \<open>What a run does\<close>

text \<open>
  The messages the program prints that tell one outcome from another, and the files it
  writes. \<open>InfoSaving\<close> carries the text \<^verbatim>\<open>printf_s\<close> shows for \<^verbatim>\<open>name.c_str()\<close>.
\<close>

datatype message =
    ErrInvalidPak
  | WarnSpecialEntries
  | ErrInvalidStringTable
  | InfoSaving string
  | ErrDumpFailed string
  | FileWritten string "u8 list"
  | ErrUnsupported
  | ErrInvalidFileSize

text \<open>
  The ways a run can end other than by returning: \<^verbatim>\<open>back()\<close> on an empty vector, the
  decompressor reporting more bytes than the 4096-byte buffer holds, and \<^verbatim>\<open>sprintf_s\<close>
  given a path that does not fit \<^verbatim>\<open>MAX_PATH\<close> characters. An outcome keeps the file and
  the messages up to the point where the run ended. Memory is taken as unbounded: no
  vector or string allocation fails.
\<close>

datatype crash = BackOfEmptyVector | DepackOverrun | SprintfOverflow

datatype outcome = Returned FILE "message list" | Crashed crash FILE "message list"

fun messages :: "outcome \<Rightarrow> message list" where
  "messages (Returned f ms) = ms"
| "messages (Crashed c f ms) = ms"

fun final_file :: "outcome \<Rightarrow> FILE" where
  "final_file (Returned f ms) = f"
| "final_file (Crashed c f ms) = f"

section \<open>save_compressed_file\<close>

text \<open>\<^verbatim>\<open>name.c_str()\<close> read by \<^verbatim>\<open>%s\<close>: the characters before the first NUL.\<close>

definition c_str :: "string \<Rightarrow> string" where
  "c_str name = takeWhile (\<lambda>c. c \<noteq> CHR 0x00) name"

text \<open>The first loop: \<open>n\<close> more chunk sizes are read and pushed back.\<close>

fun read_chunk_sizes :: "nat \<Rightarrow> FILE \<Rightarrow> u32 list \<Rightarrow> u32 list \<times> FILE" where
  "read_chunk_sizes 0 f chunkSizes = (chunkSizes, f)"
| "read_chunk_sizes (Suc n) f chunkSizes =
     (case read_u32 f of (chunk, f') \<Rightarrow> read_chunk_sizes n f' (chunkSizes @ [chunk]))"

text \<open>
  The second loop, over the chunk sizes still to do. The decompressor \<^verbatim>\<open>aP_depack_asm\<close>
  is not part of the repository: it is the parameter \<open>depack\<close>, which maps the source
  buffer and the destination buffer (4096 zero bytes) to the length it returns and the
  destination buffer afterwards. \<^verbatim>\<open>bufferDec.begin() + decSize\<close> beyond the buffer is the
  crash \<open>DepackOverrun\<close>. The first component of the result is the crash, if any.
\<close>

type_synonym depacker = "u8 list \<Rightarrow> u8 list \<Rightarrow> u32 \<times> u8 list"

fun depack_chunks ::
  "depacker \<Rightarrow> u32 list \<Rightarrow> FILE \<Rightarrow> u8 list \<Rightarrow> crash option \<times> u8 list \<times> FILE"
where
  "depack_chunks depack [] f fileData = (None, fileData, f)"
| "depack_chunks depack (chunkSize # rest) f fileData =
     (case fread f (unat chunkSize) of (bufferEnc, f') \<Rightarrow>
        (case depack bufferEnc (replicate 4096 0) of (decSize, bufferDec) \<Rightarrow>
           if 4096 < unat decSize then (Some DepackOverrun, fileData, f')
           else depack_chunks depack rest f' (fileData @ take (unat decSize) bufferDec)))"

text \<open>
  \<open>fopen_ok\<close> says for which paths \<^verbatim>\<open>fopen_s(&out, filePath, "wb")\<close> succeeds. The result
  is the crash, if any, the file after the reads and the messages of this call.
\<close>

definition save_compressed_file ::
  "depacker \<Rightarrow> (string \<Rightarrow> bool) \<Rightarrow> FILE \<Rightarrow> string \<Rightarrow> u64 \<Rightarrow> u32 \<Rightarrow>
   crash option \<times> FILE \<times> message list"
where
  "save_compressed_file depack fopen_ok f name offset size' =
     (case read_u32 (fseeki64 f offset) of (fileSize, f1) \<Rightarrow>
       (case read_u32 f1 of (chunks, f2) \<Rightarrow>
          if 0 < chunks then
            (case read_chunk_sizes (unat chunks) f2 [] of (chunkSizes, f3) \<Rightarrow>
              (case depack_chunks depack chunkSizes f3 [] of
                 (Some c, fileData, f4) \<Rightarrow> (Some c, f4, [])
               | (None, fileData, f4) \<Rightarrow>
                   (let filePath = ''dump//'' @ c_str name
                    in if MAX_PATH \<le> length filePath then (Some SprintfOverflow, f4, [])
                       else if fopen_ok filePath
                       then (None, f4, [FileWritten filePath fileData])
                       else (None, f4, [ErrDumpFailed filePath]))))
          else (None, f2, [])))"

section \<open>process_pak_karl\<close>

text \<open>
  The entry loop is a \<^verbatim>\<open>do ... while (count > 0)\<close> on a \<^verbatim>\<open>uint32_t\<close> counter that is
  decremented after each entry.
\<close>

definition read_entry :: "FILE \<Rightarrow> file_entry \<times> FILE" where
  "read_entry f =
     (case fread f sizeof_pakfileentry_t of (bs, f') \<Rightarrow>
        ((le32 (take 4 bs), le32 (take 4 (drop 4 bs)), le32 (take 4 (drop 8 bs))), f'))"

function read_entries :: "u32 \<Rightarrow> FILE \<Rightarrow> file_entry list \<Rightarrow> file_entry list \<times> FILE" where
  "read_entries count' f fileEntries =
     (case read_entry f of (entry, f') \<Rightarrow>
        if 0 < count' - 1 then read_entries (count' - 1) f' (fileEntries @ [entry])
        else (fileEntries @ [entry], f'))"
  by pat_completeness auto
termination
proof (relation "measure (\<lambda>(count', f, fileEntries). unat (count' - 1))")
  show "wf (measure (\<lambda>(count', f, fileEntries). unat (count' - 1)))"
    by simp
next
  fix count' :: u32 and f :: FILE and fileEntries :: "file_entry list"
    and x :: "file_entry \<times> FILE" and entry f'
  assume "0 < count' - 1"
  then have nz: "count' - 1 \<noteq> 0"
    by auto
  then have "unat (count' - 1) \<noteq> 0"
    by (simp add: unat_eq_zero)
  with nz have "unat (count' - 1 - 1) < unat (count' - 1)"
    using unat_minus_one [of "count' - 1"] by simp
  then show "((count' - 1, f', fileEntries @ [entry]), (count', f, fileEntries))
      \<in> measure (\<lambda>(count', f, fileEntries). unat (count' - 1))"
    by simp
qed

declare read_entries.simps [simp del]

text \<open>
  The name loop is a \<^verbatim>\<open>do ... while (sSize < tSize)\<close>. \<open>sSize\<close> is a \<^verbatim>\<open>uint32_t\<close> and
  wraps, so the loop need not end: the result \<open>None\<close> is a run that never leaves it.
\<close>

partial_function (option) read_names ::
  "FILE \<Rightarrow> u32 \<Rightarrow> u32 \<Rightarrow> string_entry list \<Rightarrow> (string_entry list \<times> FILE) option"
where
  "read_names f tSize sSize stringEntries =
     (case fread f sizeof_pakfilename_t of (bs, f1) \<Rightarrow>
       (case fread f1 (unat (le32 (take 4 (drop 4 bs)))) of (raw, f2) \<Rightarrow>
          if sSize + 8 + le32 (take 4 (drop 4 bs)) < tSize
          then read_names f2 tSize (sSize + 8 + le32 (take 4 (drop 4 bs)))
                 (stringEntries @ [(le32 (take 4 bs), map to_char raw)])
          else Some (stringEntries @ [(le32 (take 4 bs), map to_char raw)], f2)))"

declare read_names.simps [code]

text \<open>
  \<^verbatim>\<open>sprintf_s(fileName, "%08X.unknown_file", unknownFileCount)\<close>: \<^verbatim>\<open>%X\<close> takes an
  \<^verbatim>\<open>unsigned int\<close>, the low 32 bits of the counter, and writes it in upper-case
  hexadecimal, padded with zeros to eight digits.
\<close>

definition hex_digit :: "nat \<Rightarrow> char" where
  "hex_digit d = ''0123456789ABCDEF'' ! (d mod 16)"

definition sprintf_08X :: "nat \<Rightarrow> string" where
  "sprintf_08X n =
     map (\<lambda>i. hex_digit ((n mod 2 ^ 32) div 16 ^ i)) [7, 6, 5, 4, 3, 2, 1, 0]"

text \<open>
  The first half of the \<^verbatim>\<open>for_each\<close> body: the name of an entry and the counter
  afterwards. \<^verbatim>\<open>std::find_if\<close> is \<^const>\<open>find\<close>: the first name entry with the id.
\<close>

definition entry_name :: "string_entry list \<Rightarrow> file_entry \<Rightarrow> nat \<Rightarrow> string \<times> nat" where
  "entry_name stringEntries e unknownFileCount =
     (let name = (case find (\<lambda>se. fst se = Crc e) stringEntries of
                    Some sentry \<Rightarrow> snd sentry
                  | None \<Rightarrow> '''')
      in if length name = 0
         then (sprintf_08X unknownFileCount @ ''.unknown_file'', unknownFileCount + 1)
         else (name, unknownFileCount))"

text \<open>The \<^verbatim>\<open>for_each\<close> over the file entries, threading the file, the counter and the log.\<close>

fun dump_files ::
  "depacker \<Rightarrow> (string \<Rightarrow> bool) \<Rightarrow> pakheader_t \<Rightarrow>
   string_entry list \<Rightarrow> file_entry list \<Rightarrow> FILE \<Rightarrow> nat \<Rightarrow> message list \<Rightarrow> outcome"
where
  "dump_files depack fopen_ok header stringEntries [] f unknownFileCount log = Returned f log"
| "dump_files depack fopen_ok header stringEntries (e # es) f unknownFileCount log =
     (case entry_name stringEntries e unknownFileCount of (name, unknownFileCount') \<Rightarrow>
        (case save_compressed_file depack fopen_ok f name
                (ucast (Position e) * ucast (Unknown00 header)) (Size e) of
           (Some c, f', ms) \<Rightarrow> Crashed c f' (log @ [InfoSaving (c_str name)] @ ms)
         | (None, f', ms) \<Rightarrow>
             dump_files depack fopen_ok header stringEntries es f' unknownFileCount'
               (log @ [InfoSaving (c_str name)] @ ms)))"

text \<open>
  \<^verbatim>\<open>std::sort\<close> is the parameter \<open>std_sort\<close>: the library promises a rearrangement of the
  vector that is in order for the comparison \<^verbatim>\<open>get<1>(a) < get<1>(b)\<close>, and nothing about
  elements that compare equal.
\<close>

definition std_sort_contract :: "(file_entry list \<Rightarrow> file_entry list) \<Rightarrow> bool" where
  "std_sort_contract std_sort \<longleftrightarrow>
     (\<forall>xs. mset (std_sort xs) = mset xs \<and>
           sorted_wrt (\<lambda>a b. \<not> Position b < Position a) (std_sort xs))"

text \<open>The first part of the function: the entry table, read and sorted.\<close>

definition read_entry_table ::
  "(file_entry list \<Rightarrow> file_entry list) \<Rightarrow> FILE \<Rightarrow> pakheader_t \<Rightarrow>
   u32 \<times> u32 \<times> file_entry list \<times> FILE"
where
  "read_entry_table std_sort f header =
     (case read_u32 (fseeki64 f (EntriesOffset header)) of (eCount, f1) \<Rightarrow>
       (case read_u32 f1 of (sCount, f2) \<Rightarrow>
          if 0 < eCount
          then (case read_entries eCount f2 [] of (fileEntries, f3) \<Rightarrow>
                  (eCount, sCount, std_sort fileEntries, f3))
          else (eCount, sCount, [], f2)))"

text \<open>
  The function itself. The file pointer is never null here (\<^verbatim>\<open>main\<close> has opened it), so
  the first test is on the size and the validity flag. The informational messages and the
  creation of the \<^verbatim>\<open>dump\<close> directory are left out.
\<close>

definition process_pak_karl ::
  "(file_entry list \<Rightarrow> file_entry list) \<Rightarrow> depacker \<Rightarrow> (string \<Rightarrow> bool) \<Rightarrow>
   FILE \<Rightarrow> nat \<Rightarrow> pakheader_t \<Rightarrow> outcome option"
where
  "process_pak_karl std_sort depack fopen_ok f fileSize header =
     (if fileSize = 0 \<or> IsValid header = 0 then Some (Returned f [ErrInvalidPak])
      else
        (case read_entry_table std_sort f header of (eCount, sCount, fileEntries, f3) \<Rightarrow>
          (let log = (if 0 < sCount then [WarnSpecialEntries] else [])
           in if 0 < eCount then
                if fileEntries = [] then Some (Crashed BackOfEmptyVector f3 log)
                else
                  (case read_u32 (fseeki64 f3
                          (ucast (Position (last fileEntries)) * ucast (Unknown00 header))) of
                     (tSize, f4) \<Rightarrow>
                    (case read_u32 f4 of (unk00, f5) \<Rightarrow>
                       if tSize = 0 then Some (Returned f5 (log @ [ErrInvalidStringTable]))
                       else
                         (case read_names f5 tSize 0 [] of
                            None \<Rightarrow> None
                          | Some (stringEntries, f6) \<Rightarrow>
                              Some (dump_files depack fopen_ok header stringEntries
                                      (butlast fileEntries) f6 0 log))))
              else Some (dump_files depack fopen_ok header [] fileEntries f3 0 log))))"

section \<open>main\<close>

text \<open>
  \<^verbatim>\<open>main\<close> from the point where the input file is open: the size check, the header and
  the dispatch on the signature.
\<close>

definition read_header :: "FILE \<Rightarrow> pakheader_t \<times> FILE" where
  "read_header f =
     (case fread f sizeof_pakheader_t of (bs, f') \<Rightarrow>
        (\<lparr>Signature = le32 (take 4 bs),
          IsValid = le32 (take 4 (drop 4 bs)),
          Unknown00 = le32 (take 4 (drop 8 bs)),
          Unknown01 = le32 (take 4 (drop 12 bs)),
          EntriesOffset = le64 (take 8 (drop 16 bs)),
          Unknown02 = le32 (take 4 (drop 24 bs)),
          Unknown03 = le32 (take 4 (drop 28 bs))\<rparr>, f'))"

definition process_pak_unsupported :: "message list" where
  "process_pak_unsupported = [ErrUnsupported]"

definition main ::
  "(file_entry list \<Rightarrow> file_entry list) \<Rightarrow> depacker \<Rightarrow> (string \<Rightarrow> bool) \<Rightarrow>
   u8 list \<Rightarrow> outcome option"
where
  "main std_sort depack fopen_ok bytes =
     (let f = \<lparr>content = bytes, cursor = 0, seeks = []\<rparr>; size' = length bytes
      in if size' < sizeof_pakheader_t then Some (Returned f [ErrInvalidFileSize])
         else
           (case read_header f of (header, f') \<Rightarrow>
              if Signature header = KaikoCompressedLE
              then process_pak_karl std_sort depack fopen_ok f' size' header
              else Some (Returned f' process_pak_unsupported)))"

section \<open>Auxiliary definitions and example inputs\<close>

text \<open>The three messages that report a rejected header.\<close>

definition header_error :: "message \<Rightarrow> bool" where
  "header_error m \<longleftrightarrow> m = ErrInvalidPak \<or> m = ErrUnsupported \<or> m = ErrInvalidFileSize"

text \<open>A decompressor that reports no output, for inputs where none is called.\<close>

definition no_depack :: depacker where
  "no_depack src dst = (0, dst)"

text \<open>
  Two 32-byte headers: the supported signature \<^verbatim>\<open>KARl\<close> (an archive with no entries),
  and \<^verbatim>\<open>PAKl\<close>, one of the signatures the program lists and does not support.
\<close>

definition karl_header :: "u8 list" where
  "karl_header =
     [0x4B, 0x41, 0x52, 0x6C, 1, 0, 0, 0, 0x10, 0, 0, 0, 0, 1, 0, 0,
      32, 0, 0, 0, 0, 0, 0, 0, 0, 0, 0, 0, 0, 0, 0, 0]"

definition other_header :: "u8 list" where
  "other_header =
     [0x50, 0x41, 0x4B, 0x6C, 1, 0, 0, 0, 0x10, 0, 0, 0, 0, 1, 0, 0,
      32, 0, 0, 0, 0, 0, 0, 0, 0, 0, 0, 0, 0, 0, 0, 0]"

text \<open>The header of these examples as a structure, and a file with no bytes at all.\<close>

definition karl_pakheader :: pakheader_t where
  "karl_pakheader =
     \<lparr>Signature = 0x6C52414B, IsValid = 1, Unknown00 = 0x10, Unknown01 = 0x100,
      EntriesOffset = 32, Unknown02 = 0, Unknown03 = 0\<rparr>"

definition empty_file :: FILE where
  "empty_file = \<lparr>content = [], cursor = 0, seeks = []\<rparr>"

text \<open>
  A stand-in for the decompressor that copies the source buffer to the start of the
  destination buffer and returns its length.
\<close>

definition copy_depack :: depacker where
  "copy_depack src dst = (of_nat (length src), src @ drop (length src) dst)"

text \<open>
  The scenario of the specification as a file of 106 bytes: the header (position scale
  16, entry table at 32), two entries read in the order (id 0, position 5) and (id 7,
  position 4), the payload of the second at byte 64 (one chunk of two bytes), and at
  byte 80 the name table with the one record \<open>(7, weapon.dat)\<close>.
\<close>

definition weapon_pak :: "u8 list" where
  "weapon_pak =
     [0x4B, 0x41, 0x52, 0x6C, 1, 0, 0, 0, 0x10, 0, 0, 0, 0, 1, 0, 0,
      32, 0, 0, 0, 0, 0, 0, 0, 0, 0, 0, 0, 0, 0, 0, 0,
      2, 0, 0, 0, 0, 0, 0, 0,
      0, 0, 0, 0, 5, 0, 0, 0, 0, 0, 0, 0,
      7, 0, 0, 0, 4, 0, 0, 0, 2, 0, 0, 0,
      2, 0, 0, 0, 1, 0, 0, 0, 2, 0, 0, 0, 0xAA, 0xBB, 0, 0,
      18, 0, 0, 0, 0, 0, 0, 0,
      7, 0, 0, 0, 10, 0, 0, 0,
      0x77, 0x65, 0x61, 0x70, 0x6F, 0x6E, 0x2E, 0x64, 0x61, 0x74]"



text \<open>
  A name table of 19 bytes with the records \<open>(1, a)\<close> and \<open>(2, bc)\<close>, followed by four
  bytes that belong to something else.
\<close>

definition names_file :: FILE where
  "names_file =
     \<lparr>content = [1, 0, 0, 0, 1, 0, 0, 0, 0x61,
                 2, 0, 0, 0, 2, 0, 0, 0, 0x62, 0x63,
                 0xFF, 0xFF, 0xFF, 0xFF],
      cursor = 0, seeks = []\<rparr>"

text \<open>
  A payload at offset 0 with two chunks, of one and of two bytes.
\<close>

definition two_chunk_file :: FILE where
  "two_chunk_file =
     \<lparr>content = [3, 0, 0, 0, 2, 0, 0, 0, 1, 0, 0, 0, 2, 0, 0, 0, 0x11, 0x22, 0x33],
      cursor = 0, seeks = []\<rparr>"

text \<open>
  A payload header with the chunk count 0, and a name table of 18 bytes whose two records
  carry the same id: \<open>(1, a)\<close> and \<open>(1, b)\<close>.
\<close>

definition no_chunk_file :: FILE where
  "no_chunk_file = \<lparr>content = [3, 0, 0, 0, 0, 0, 0, 0], cursor = 0, seeks = []\<rparr>"

definition duplicate_names_file :: FILE where
  "duplicate_names_file =
     \<lparr>content = [1, 0, 0, 0, 1, 0, 0, 0, 0x61,
                 1, 0, 0, 0, 1, 0, 0, 0, 0x62],
      cursor = 0, seeks = []\<rparr>"

text \<open>
  The names announced by the \<^verbatim>\<open>Saving file\<close> messages of a log, in order: one for every
  entry the \<^verbatim>\<open>for_each\<close> reaches.
\<close>

definition saving_names :: "message list \<Rightarrow> string list" where
  "saving_names ms = concat (map (\<lambda>m. case m of InfoSaving n \<Rightarrow> [n] | _ \<Rightarrow> []) ms)"

text \<open>The byte offset of an entry as the format defines it: position times position scale.\<close>

definition byte_offset :: "pakheader_t \<Rightarrow> file_entry \<Rightarrow> nat" where
  "byte_offset header e = unat (Position e) * unat (Unknown00 header)"

text \<open>
  The test \<^verbatim>\<open>name.length() == 0\<close> of the \<^verbatim>\<open>for_each\<close> body: the entry gets a generated
  name, because no record has its id or because the first record with its id has an
  empty name.
\<close>

definition generated :: "string_entry list \<Rightarrow> file_entry \<Rightarrow> bool" where
  "generated stringEntries e \<longleftrightarrow>
     (case find (\<lambda>se. fst se = Crc e) stringEntries of
        Some sentry \<Rightarrow> snd sentry = []
      | None \<Rightarrow> True)"

text \<open>The names \<open>entry_name\<close> gives to a list of entries, the counter passed along.\<close>

fun entry_names :: "string_entry list \<Rightarrow> file_entry list \<Rightarrow> nat \<Rightarrow> string list" where
  "entry_names stringEntries [] unknownFileCount = []"
| "entry_names stringEntries (e # es) unknownFileCount =
     (case entry_name stringEntries e unknownFileCount of
        (name, unknownFileCount') \<Rightarrow> name # entry_names stringEntries es unknownFileCount')"

text \<open>
  A sequence of well-formed name records laid out in the bytes \<open>bs\<close> from offset \<open>off\<close>:
  each record is the 8-byte header (id, name length) followed by as many name bytes as
  the header says, all of them inside the file, and the next record starts right behind.
\<close>

fun records_at :: "u8 list \<Rightarrow> nat \<Rightarrow> string_entry list \<Rightarrow> bool" where
  "records_at bs off [] = True"
| "records_at bs off (r # rs) =
     (off + 8 + length (snd r) \<le> length bs \<and>
      le32 (take 4 (drop off bs)) = fst r \<and>
      unat (le32 (take 4 (drop (off + 4) bs))) = length (snd r) \<and>
      map to_char (take (length (snd r)) (drop (off + 8) bs)) = snd r \<and>
      records_at bs (off + 8 + length (snd r)) rs)"

text \<open>The cumulative byte length of a sequence of records.\<close>

definition records_size :: "string_entry list \<Rightarrow> nat" where
  "records_size rs = sum_list (map (\<lambda>r. 8 + length (snd r)) rs)"

text \<open>
  The layout of a chunked payload, by absolute offsets. \<open>slice bs off n\<close> is the \<open>n\<close>
  bytes of the file at \<open>off\<close>, with zeros where the file has ended (what a zeroed buffer
  holds after a read there). The payload at \<open>off\<close> has its chunk count at \<open>off + 4\<close>, its
  chunk sizes from \<open>off + 8\<close>, four bytes each, and behind them the compressed chunks, one
  after the other.
\<close>

definition slice :: "u8 list \<Rightarrow> nat \<Rightarrow> nat \<Rightarrow> u8 list" where
  "slice bs off n =
     take n (drop off bs) @ replicate (n - length (take n (drop off bs))) 0"

definition chunk_count :: "u8 list \<Rightarrow> nat \<Rightarrow> u32" where
  "chunk_count bs off = le32 (slice bs (off + 4) 4)"

definition chunk_sizes :: "u8 list \<Rightarrow> nat \<Rightarrow> nat \<Rightarrow> u32 list" where
  "chunk_sizes bs off n = map (\<lambda>i. le32 (slice bs (off + 8 + 4 * i) 4)) [0..<n]"

fun chunk_buffers :: "u8 list \<Rightarrow> nat \<Rightarrow> u32 list \<Rightarrow> u8 list list" where
  "chunk_buffers bs off [] = []"
| "chunk_buffers bs off (s # ss) = slice bs off (unat s) # chunk_buffers bs (off + unat s) ss"

definition compressed_chunks :: "u8 list \<Rightarrow> nat \<Rightarrow> u8 list list" where
  "compressed_chunks bs off =
     (let n = unat (chunk_count bs off)
      in chunk_buffers bs (off + 8 + 4 * n) (chunk_sizes bs off n))"

text \<open>
  What the decompressor yields for one compressed chunk: the destination buffer cut to
  the length the decompressor reports, and that length.
\<close>

definition depacked :: "depacker \<Rightarrow> u8 list \<Rightarrow> u8 list" where
  "depacked depack chunk =
     (case depack chunk (replicate 4096 0) of (decSize, bufferDec) \<Rightarrow>
        take (unat decSize) bufferDec)"

definition reported_length :: "depacker \<Rightarrow> u8 list \<Rightarrow> nat" where
  "reported_length depack chunk = unat (fst (depack chunk (replicate 4096 0)))"

text \<open>
  A file whose reads see what a cursor at the offset \<open>c\<close> of the bytes \<open>bs\<close> would see (the
  cursor of a file read to its end stops there, while the offset goes on).
\<close>

definition reads_from :: "FILE \<Rightarrow> u8 list \<Rightarrow> nat \<Rightarrow> bool" where
  "reads_from f bs c \<longleftrightarrow> content f = bs \<and> drop (cursor f) bs = drop c bs"


section \<open>A library implementation of std::sort\<close>




subsection \<open>Heap sort\<close>















subsection \<open>The partition\<close>











subsection \<open>Insertion sort\<close>










subsection \<open>std::sort\<close>



section \<open>Reading integers and bytes\<close>

lemma le32_Nil [simp]: "le32 [] = 0"
  by (simp add: le32_def)

lemma le32_Cons [simp]: "le32 (b # bs) = ucast b + 256 * le32 bs"
  by (simp add: le32_def)

lemma le32_replicate_0 [simp]: "le32 (replicate n 0) = 0"
  by (induction n) simp_all

lemma le64_Nil [simp]: "le64 [] = 0"
  by (simp add: le64_def)

lemma le64_Cons [simp]: "le64 (b # bs) = ucast b + 256 * le64 bs"
  by (simp add: le64_def)

lemma le64_replicate_0 [simp]: "le64 (replicate n 0) = 0"
  by (induction n) simp_all

lemma fread_whole:
  "n \<le> length (content f) - cursor f \<Longrightarrow>
   fread f n = (take n (drop (cursor f) (content f)), f\<lparr>cursor := cursor f + n\<rparr>)"
  by (simp add: fread_def Let_def)

lemma read_header_start:
  assumes "sizeof_pakheader_t \<le> length bytes"
  shows "read_header \<lparr>content = bytes, cursor = 0, seeks = []\<rparr> =
           (\<lparr>Signature = le32 (take 4 bytes),
             IsValid = le32 (take 4 (drop 4 bytes)),
             Unknown00 = le32 (take 4 (drop 8 bytes)),
             Unknown01 = le32 (take 4 (drop 12 bytes)),
             EntriesOffset = le64 (take 8 (drop 16 bytes)),
             Unknown02 = le32 (take 4 (drop 24 bytes)),
             Unknown03 = le32 (take 4 (drop 28 bytes))\<rparr>,
            \<lparr>content = bytes, cursor = 32, seeks = []\<rparr>)"
  using assms
  by (simp add: read_header_def fread_whole sizeof_pakheader_t_def take_drop min_def)

section \<open>The header and the dispatch on the signature\<close>

lemma save_compressed_file_messages:
  "save_compressed_file depack fopen_ok f name offset sz = (c, f', ms) \<Longrightarrow>
   \<forall>m \<in> set ms. \<not> header_error m"
  by (auto simp: save_compressed_file_def header_error_def Let_def
      split: prod.splits if_splits option.splits)

lemma dump_files_messages:
  "\<forall>m \<in> set log. \<not> header_error m \<Longrightarrow>
   \<forall>m \<in> set (messages (dump_files depack fopen_ok header st es f k log)). \<not> header_error m"
proof (induction es arbitrary: f k log)
  case Nil
  then show ?case by simp
next
  case (Cons e es)
  obtain name k' where en: "entry_name st e k = (name, k')"
    by (cases "entry_name st e k")
  obtain c f' ms where sv: "save_compressed_file depack fopen_ok f name
      (ucast (Position e) * ucast (Unknown00 header)) (Size e) = (c, f', ms)"
    by (cases "save_compressed_file depack fopen_ok f name
      (ucast (Position e) * ucast (Unknown00 header)) (Size e)")
  have ms: "\<forall>m \<in> set ms. \<not> header_error m"
    using save_compressed_file_messages [OF sv] .
  have log': "\<forall>m \<in> set (log @ [InfoSaving (c_str name)] @ ms). \<not> header_error m"
    using Cons.prems ms by (auto simp: header_error_def)
  show ?case
  proof (cases c)
    case None
    then show ?thesis
      using Cons.IH [OF log'] en sv by simp
  next
    case (Some cr)
    then show ?thesis
      using log' en sv by simp
  qed
qed

lemma process_pak_karl_messages:
  assumes "fileSize \<noteq> 0" and "IsValid header \<noteq> 0"
    and "process_pak_karl std_sort depack fopen_ok f fileSize header = Some out"
  shows "\<forall>m \<in> set (messages out). \<not> header_error m"
proof -
  obtain eCount sCount es f3 where ret: "read_entry_table std_sort f header = (eCount, sCount, es, f3)"
    by (cases "read_entry_table std_sort f header")
  define log where "log = (if 0 < sCount then [WarnSpecialEntries] else [])"
  have base: "\<forall>m \<in> set log. \<not> header_error m"
    by (simp add: header_error_def log_def)
  note dump = dump_files_messages [OF base]
  show ?thesis
  proof (cases "0 < eCount")
    case False
    then have "out = dump_files depack fopen_ok header [] es f3 0 log"
      using assms ret by (simp add: process_pak_karl_def log_def)
    then show ?thesis using dump by simp
  next
    case True
    show ?thesis
    proof (cases "es = []")
      case True
      then have "out = Crashed BackOfEmptyVector f3 log"
        using assms ret \<open>0 < eCount\<close> by (simp add: process_pak_karl_def log_def)
      then show ?thesis using base by simp
    next
      case False
      obtain tSize f4 where r1: "read_u32 (fseeki64 f3
          (ucast (Position (last es)) * ucast (Unknown00 header))) = (tSize, f4)"
        by (cases "read_u32 (fseeki64 f3 (ucast (Position (last es)) * ucast (Unknown00 header)))")
      obtain unk00 f5 where r2: "read_u32 f4 = (unk00, f5)"
        by (cases "read_u32 f4")
      show ?thesis
      proof (cases "tSize = 0")
        case True
        then have "out = Returned f5 (log @ [ErrInvalidStringTable])"
          using assms ret \<open>0 < eCount\<close> \<open>es \<noteq> []\<close> r1 r2
          by (simp add: process_pak_karl_def log_def)
        then show ?thesis using base by (simp add: header_error_def)
      next
        case False
        then obtain st f6 where "read_names f5 tSize 0 [] = Some (st, f6)"
          and "out = dump_files depack fopen_ok header st (butlast es) f6 0 log"
          using assms ret \<open>0 < eCount\<close> \<open>es \<noteq> []\<close> r1 r2
          by (auto simp: process_pak_karl_def log_def split: option.splits)
        then show ?thesis using dump by simp
      qed
    qed
  qed
qed


text \<open>
  C8: for an input of at least \<open>sizeof(pakheader_t)\<close> bytes, a header with the signature
  \<open>KaikoCompressedLE\<close> and a non-zero validity flag is accepted: \<open>main\<close> is the run of
  \<open>process_pak_karl\<close> on the parsed header, and none of the messages for a rejected
  header (invalid size, unsupported type, invalid information) appears. With any other
  signature the run prints the unsupported-type error and nothing else: no file is
  written.
\<close>

theorem main_dispatch:
  assumes "sizeof_pakheader_t \<le> length bytes"
  shows "(le32 (take 4 bytes) = KaikoCompressedLE \<and> le32 (take 4 (drop 4 bytes)) \<noteq> 0 \<longrightarrow>
           main std_sort depack fopen_ok bytes =
             process_pak_karl std_sort depack fopen_ok
               \<lparr>content = bytes, cursor = 32, seeks = []\<rparr> (length bytes)
               (fst (read_header \<lparr>content = bytes, cursor = 0, seeks = []\<rparr>)) \<and>
           (\<forall>out. main std_sort depack fopen_ok bytes = Some out \<longrightarrow>
              (\<forall>m \<in> set (messages out).
                 m \<noteq> ErrInvalidFileSize \<and> m \<noteq> ErrUnsupported \<and> m \<noteq> ErrInvalidPak))) \<and>
         (le32 (take 4 bytes) \<noteq> KaikoCompressedLE \<longrightarrow>
           main std_sort depack fopen_ok bytes =
             Some (Returned \<lparr>content = bytes, cursor = 32, seeks = []\<rparr> [ErrUnsupported]))"
proof (intro conjI impI)
  assume sig: "le32 (take 4 bytes) \<noteq> KaikoCompressedLE"
  show "main std_sort depack fopen_ok bytes =
      Some (Returned \<lparr>content = bytes, cursor = 32, seeks = []\<rparr> [ErrUnsupported])"
    using assms sig
    by (simp add: main_def Let_def read_header_start process_pak_unsupported_def)
next
  assume ok: "le32 (take 4 bytes) = KaikoCompressedLE \<and> le32 (take 4 (drop 4 bytes)) \<noteq> 0"
  show eq: "main std_sort depack fopen_ok bytes =
      process_pak_karl std_sort depack fopen_ok
        \<lparr>content = bytes, cursor = 32, seeks = []\<rparr> (length bytes)
        (fst (read_header \<lparr>content = bytes, cursor = 0, seeks = []\<rparr>))"
    using assms ok by (simp add: main_def Let_def read_header_start)
  have len: "length bytes \<noteq> 0"
    using assms by (auto simp: sizeof_pakheader_t_def)
  have valid: "IsValid (fst (read_header \<lparr>content = bytes, cursor = 0, seeks = []\<rparr>)) \<noteq> 0"
    using assms ok by (simp add: read_header_start)
  show "\<forall>out. main std_sort depack fopen_ok bytes = Some out \<longrightarrow>
      (\<forall>m \<in> set (messages out).
         m \<noteq> ErrInvalidFileSize \<and> m \<noteq> ErrUnsupported \<and> m \<noteq> ErrInvalidPak)"
  proof (intro allI impI)
    fix out
    assume "main std_sort depack fopen_ok bytes = Some out"
    then have "process_pak_karl std_sort depack fopen_ok
        \<lparr>content = bytes, cursor = 32, seeks = []\<rparr> (length bytes)
        (fst (read_header \<lparr>content = bytes, cursor = 0, seeks = []\<rparr>)) = Some out"
      using eq by simp
    from process_pak_karl_messages [OF len valid this]
    show "\<forall>m \<in> set (messages out).
        m \<noteq> ErrInvalidFileSize \<and> m \<noteq> ErrUnsupported \<and> m \<noteq> ErrInvalidPak"
      by (auto simp: header_error_def)
  qed
qed

theorem main_dispatch_witness:
  "sizeof_pakheader_t \<le> length karl_header \<and>
   le32 (take 4 karl_header) = KaikoCompressedLE \<and> le32 (take 4 (drop 4 karl_header)) \<noteq> 0 \<and>
   main (sort_key Position) no_depack (\<lambda>p. True) karl_header =
     Some (Returned \<lparr>content = karl_header, cursor = 32, seeks = [32]\<rparr> []) \<and>
   sizeof_pakheader_t \<le> length other_header \<and>
   le32 (take 4 other_header) \<noteq> KaikoCompressedLE \<and>
   main (sort_key Position) no_depack (\<lambda>p. True) other_header =
     Some (Returned \<lparr>content = other_header, cursor = 32, seeks = []\<rparr> [ErrUnsupported])"
proof -
  have k: "sizeof_pakheader_t \<le> length karl_header"
    and o: "sizeof_pakheader_t \<le> length other_header"
    by (simp_all add: sizeof_pakheader_t_def karl_header_def other_header_def)
  have ksig: "le32 (take 4 karl_header) = KaikoCompressedLE"
    and kvalid: "le32 (take 4 (drop 4 karl_header)) \<noteq> 0"
    and osig: "le32 (take 4 other_header) \<noteq> KaikoCompressedLE"
    by (simp_all add: karl_header_def other_header_def KaikoCompressedLE_def)
  have hdr: "fst (read_header \<lparr>content = karl_header, cursor = 0, seeks = []\<rparr>) =
      \<lparr>Signature = 0x6C52414B, IsValid = 1, Unknown00 = 0x10, Unknown01 = 0x100,
       EntriesOffset = 32, Unknown02 = 0, Unknown03 = 0\<rparr>"
    unfolding read_header_start [OF k]
    by (simp add: karl_header_def)
  have tab: "read_entry_table (sort_key Position) \<lparr>content = karl_header, cursor = 32, seeks = []\<rparr>
      \<lparr>Signature = 0x6C52414B, IsValid = 1, Unknown00 = 0x10, Unknown01 = 0x100,
       EntriesOffset = 32, Unknown02 = 0, Unknown03 = 0\<rparr> =
      (0, 0, [], \<lparr>content = karl_header, cursor = 32, seeks = [32]\<rparr>)"
    by (simp add: read_entry_table_def read_u32_def fread_def fseeki64_def Let_def
        karl_header_def)
  have run: "process_pak_karl (sort_key Position) no_depack (\<lambda>p. True)
        \<lparr>content = karl_header, cursor = 32, seeks = []\<rparr> (length karl_header)
        (fst (read_header \<lparr>content = karl_header, cursor = 0, seeks = []\<rparr>)) =
      Some (Returned \<lparr>content = karl_header, cursor = 32, seeks = [32]\<rparr> [])"
    unfolding hdr process_pak_karl_def tab
    by (simp add: karl_header_def)
  show ?thesis
    using main_dispatch [OF k, of "sort_key Position" no_depack "\<lambda>p. True"]
      main_dispatch [OF o, of "sort_key Position" no_depack "\<lambda>p. True"]
      k o ksig kvalid osig run
    by simp
qed

section \<open>The seeks and the names of a run\<close>

lemma seeks_fread [simp]: "seeks (snd (fread f n)) = seeks f"
  by (simp add: fread_def Let_def)

lemma seeks_read_u32 [simp]: "seeks (snd (read_u32 f)) = seeks f"
  by (simp add: read_u32_def case_prod_beta)

lemma seeks_fseeki64 [simp]: "seeks (fseeki64 f offset) = seeks f @ [unat offset]"
  by (simp add: fseeki64_def)

lemma seeks_read_chunk_sizes [simp]: "seeks (snd (read_chunk_sizes n f cs)) = seeks f"
  by (induction n arbitrary: f cs) (simp_all add: case_prod_beta)

lemma seeks_depack_chunks [simp]:
  "seeks (snd (snd (depack_chunks depack cs f fileData))) = seeks f"
  by (induction cs arbitrary: f fileData) (simp_all add: case_prod_beta)

lemma seeks_save_compressed_file:
  "seeks (fst (snd (save_compressed_file depack fopen_ok f name offset sz))) =
     seeks f @ [unat offset]"
  by (simp add: save_compressed_file_def case_prod_beta Let_def split: option.split)

lemma saving_names_save_compressed_file:
  "saving_names (snd (snd (save_compressed_file depack fopen_ok f name offset sz))) = []"
  by (simp add: save_compressed_file_def case_prod_beta Let_def saving_names_def
      split: option.split)

lemma saving_names_append [simp]:
  "saving_names (xs @ ys) = saving_names xs @ saving_names ys"
  by (simp add: saving_names_def)

lemma saving_names_Nil [simp]: "saving_names [] = []"
  by (simp add: saving_names_def)

lemma saving_names_Cons [simp]:
  "saving_names (m # ms) = (case m of InfoSaving n \<Rightarrow> [n] | _ \<Rightarrow> []) @ saving_names ms"
  by (simp add: saving_names_def)

lemma unat_ucast_u32_u64: "unat (ucast (p :: u32) :: u64) = unat p"
proof -
  have "unat p < 2 ^ 32"
    using unsigned_less [of p, where ?'a = nat] by simp
  then have "unat p < 2 ^ 64"
    by (rule less_trans) simp
  then show ?thesis
    by (simp add: unsigned_ucast_eq take_bit_nat_eq_self)
qed

lemma unat_scaled:
  "unat (ucast (p :: u32) * ucast (s :: u32) :: u64) = unat p * unat s"
proof -
  have "unat p < 2 ^ 32" "unat s < 2 ^ 32"
    using unsigned_less [of p, where ?'a = nat] unsigned_less [of s, where ?'a = nat] by simp_all
  then have "unat p * unat s < 2 ^ 32 * 2 ^ 32"
    by (rule mult_strict_mono') simp_all
  then have "unat (ucast p :: u64) * unat (ucast s :: u64) < 2 ^ LENGTH(64)"
    by (simp add: unat_ucast_u32_u64)
  then have "unat (ucast p * ucast s :: u64) = unat (ucast p :: u64) * unat (ucast s :: u64)"
    by (simp only: unat_mult_lem)
  then show ?thesis
    by (simp add: unat_ucast_u32_u64)
qed

lemma dump_files_trace:
  "\<exists>n \<le> length es.
     saving_names (messages (dump_files depack fopen_ok header st es f k log)) =
       saving_names log @ map c_str (take n (entry_names st es k)) \<and>
     seeks (final_file (dump_files depack fopen_ok header st es f k log)) =
       seeks f @ map (byte_offset header) (take n es) \<and>
     (\<forall>f' ms. dump_files depack fopen_ok header st es f k log = Returned f' ms \<longrightarrow>
        n = length es)"
proof (induction es arbitrary: f k log)
  case Nil
  then show ?case by simp
next
  case (Cons e es)
  obtain name k' where en: "entry_name st e k = (name, k')"
    by (cases "entry_name st e k")
  obtain c f' ms where sv: "save_compressed_file depack fopen_ok f name
      (ucast (Position e) * ucast (Unknown00 header)) (Size e) = (c, f', ms)"
    by (cases "save_compressed_file depack fopen_ok f name
      (ucast (Position e) * ucast (Unknown00 header)) (Size e)")
  have f': "seeks f' = seeks f @ [byte_offset header e]"
    using seeks_save_compressed_file [of depack fopen_ok f name
        "ucast (Position e) * ucast (Unknown00 header)" "Size e"] sv
    by (simp add: unat_scaled byte_offset_def)
  have ms: "saving_names ms = []"
    using saving_names_save_compressed_file [of depack fopen_ok f name
        "ucast (Position e) * ucast (Unknown00 header)" "Size e"] sv
    by simp
  show ?case
  proof (cases c)
    case (Some cr)
    then have "dump_files depack fopen_ok header st (e # es) f k log =
        Crashed cr f' (log @ [InfoSaving (c_str name)] @ ms)"
      using en sv by simp
    then show ?thesis
      using f' ms en by (intro exI [of _ 1]) simp
  next
    case None
    then have step: "dump_files depack fopen_ok header st (e # es) f k log =
        dump_files depack fopen_ok header st es f' k' (log @ [InfoSaving (c_str name)] @ ms)"
      using en sv by simp
    from Cons.IH [of f' k' "log @ [InfoSaving (c_str name)] @ ms"]
    obtain n where n: "n \<le> length es"
      and names: "saving_names (messages (dump_files depack fopen_ok header st es f' k'
          (log @ [InfoSaving (c_str name)] @ ms))) =
        saving_names (log @ [InfoSaving (c_str name)] @ ms) @ map c_str (take n (entry_names st es k'))"
      and sk: "seeks (final_file (dump_files depack fopen_ok header st es f' k'
          (log @ [InfoSaving (c_str name)] @ ms))) = seeks f' @ map (byte_offset header) (take n es)"
      and ret: "\<forall>g ms'. dump_files depack fopen_ok header st es f' k'
          (log @ [InfoSaving (c_str name)] @ ms) = Returned g ms' \<longrightarrow> n = length es"
      by blast
    show ?thesis
      unfolding step
      using n names sk ret f' ms en by (intro exI [of _ "Suc n"]) simp
  qed
qed

section \<open>Generated names\<close>

lemma hex_digit_in: "hex_digit d \<in> set ''0123456789ABCDEF''"
  unfolding hex_digit_def by (rule nth_mem) simp

lemma hex_digit_inj:
  assumes "hex_digit a = hex_digit b"
  shows "a mod 16 = b mod 16"
proof -
  have d: "distinct ''0123456789ABCDEF''"
    by simp
  have "a mod 16 < length ''0123456789ABCDEF''" "b mod 16 < length ''0123456789ABCDEF''"
    by simp_all
  with d assms show ?thesis
    unfolding hex_digit_def by (simp only: nth_eq_iff_index_eq)
qed

lemma digits_determine:
  fixes a b :: nat
  assumes "\<forall>i < n. (a div 16 ^ i) mod 16 = (b div 16 ^ i) mod 16"
  shows "a mod 16 ^ n = b mod 16 ^ n"
  using assms
proof (induction n)
  case 0
  then show ?case by simp
next
  case (Suc n)
  have split: "m mod 16 ^ Suc n = 16 ^ n * (m div 16 ^ n mod 16) + m mod 16 ^ n" for m :: nat
  proof -
    have "m mod (16 ^ n * 16) = 16 ^ n * (m div 16 ^ n mod 16) + m mod 16 ^ n"
      by (rule mod_mult2_eq)
    then show ?thesis
      by (simp add: mult.commute)
  qed
  have "a mod 16 ^ n = b mod 16 ^ n"
    using Suc by simp
  moreover have "a div 16 ^ n mod 16 = b div 16 ^ n mod 16"
    using Suc.prems by simp
  ultimately show ?case
    by (simp only: split)
qed

lemma sprintf_08X_inj:
  assumes "sprintf_08X a = sprintf_08X b"
  shows "a mod 2 ^ 32 = b mod 2 ^ 32"
proof -
  define x where "x = a mod 2 ^ 32"
  define y where "y = b mod 2 ^ 32"
  have eq: "hex_digit (x div 16 ^ i) = hex_digit (y div 16 ^ i)" if "i \<in> set [7, 6, 5, 4, 3, 2, 1, 0 :: nat]" for i
    using assms that unfolding sprintf_08X_def x_def y_def by (simp only: map_eq_conv)
  have "\<forall>i < 8. (x div 16 ^ i) mod 16 = (y div 16 ^ i) mod 16"
  proof (intro allI impI)
    fix i :: nat
    assume "i < 8"
    then have "i = 0 \<or> i = 1 \<or> i = 2 \<or> i = 3 \<or> i = 4 \<or> i = 5 \<or> i = 6 \<or> i = 7"
      by arith
    then have "i \<in> set [7, 6, 5, 4, 3, 2, 1, 0 :: nat]"
      by auto
    then show "(x div 16 ^ i) mod 16 = (y div 16 ^ i) mod 16"
      using eq hex_digit_inj by blast
  qed
  then have "x mod 16 ^ 8 = y mod 16 ^ 8"
    by (rule digits_determine)
  moreover have "x < 16 ^ 8" "y < 16 ^ 8"
    by (simp_all add: x_def y_def)
  ultimately show ?thesis
    by (simp add: x_def y_def)
qed

lemma c_str_generated [simp]:
  "c_str (sprintf_08X k @ ''.unknown_file'') = sprintf_08X k @ ''.unknown_file''"
proof -
  have "CHR 0x00 \<notin> set (sprintf_08X k)"
  proof
    assume "CHR 0x00 \<in> set (sprintf_08X k)"
    then obtain d where "hex_digit d = CHR 0x00"
      by (auto simp: sprintf_08X_def)
    with hex_digit_in [of d] show False
      by simp
  qed
  then show ?thesis
    by (auto simp: c_str_def)
qed

lemma entry_name_generated:
  "generated st e \<Longrightarrow> entry_name st e k = (sprintf_08X k @ ''.unknown_file'', Suc k)"
  by (auto simp: generated_def entry_name_def split: option.splits)

lemma entry_name_resolved:
  "\<not> generated st e \<Longrightarrow> snd (entry_name st e k) = k"
  by (auto simp: generated_def entry_name_def split: option.splits)

lemma entry_names_length [simp]: "length (entry_names st es k) = length es"
  by (induction es arbitrary: k) (simp_all add: case_prod_beta)

lemma entry_names_nth:
  assumes "i < length es" and "generated st (es ! i)"
  shows "entry_names st es k ! i =
           sprintf_08X (k + length (filter (generated st) (take i es))) @ ''.unknown_file''"
  using assms
proof (induction es arbitrary: i k)
  case Nil
  then show ?case by simp
next
  case (Cons e es)
  show ?case
  proof (cases i)
    case 0
    then show ?thesis
      using Cons.prems by (simp add: entry_name_generated)
  next
    case (Suc j)
    then have j: "j < length es" "generated st (es ! j)"
      using Cons.prems by simp_all
    show ?thesis
    proof (cases "generated st e")
      case True
      then show ?thesis
        using Cons.IH [OF j, of "Suc k"] Suc by (simp add: entry_name_generated)
    next
      case False
      then show ?thesis
        using Cons.IH [OF j, of k] Suc entry_name_resolved [OF False, of k]
        by (simp add: case_prod_beta)
    qed
  qed
qed

lemma not_in_table_generated:
  "Crc e \<notin> fst ` set st \<Longrightarrow> generated st e"
proof -
  assume "Crc e \<notin> fst ` set st"
  then have "find (\<lambda>se. fst se = Crc e) st = None"
    by (force simp: find_None_iff image_iff)
  then show ?thesis
    by (simp add: generated_def)
qed

lemma length_sprintf_08X [simp]: "length (sprintf_08X k) = 8"
  by (simp add: sprintf_08X_def)

lemma count_generated_less:
  assumes "i < j" and "j \<le> length es" and "generated st (es ! i)"
  shows "length (filter (generated st) (take i es)) < length (filter (generated st) (take j es))"
proof -
  have il: "i < length es"
    using assms(1,2) by simp
  have "take j es = take (i + (j - i)) es"
    using assms(1) by simp
  also have "\<dots> = take i es @ take (j - i) (drop i es)"
    by (rule take_add)
  also have "drop i es = es ! i # drop (Suc i) es"
    using il by (simp add: Cons_nth_drop_Suc)
  also have "j - i = Suc (j - Suc i)"
    using assms(1) by simp
  finally have "take j es = take i es @ es ! i # take (j - Suc i) (drop (Suc i) es)"
    by simp
  then show ?thesis
    using assms(3) by simp
qed

lemma save_compressed_file_empty_file:
  "save_compressed_file depack fopen_ok \<lparr>content = [], cursor = c, seeks = sk\<rparr> name 0 sz =
     (None, \<lparr>content = [], cursor = 0, seeks = sk @ [0]\<rparr>, [])"
  by (simp add: save_compressed_file_def read_u32_def fread_def fseeki64_def Let_def)

text \<open>
  C5 (as amended): the counter starts at 0 and goes up by one for every entry that gets a
  generated name, in the order of emission; these are the entries whose id has no record
  in the name table and the entries whose first record has an empty name. So the name
  announced for the \<open>i\<close>-th entry, when its id is not in the table, is the eight
  upper-case hexadecimal digits of the number of earlier entries with a generated name,
  followed by \<open>.unknown_file\<close>. The entry count is a 32-bit number, and for up to \<open>2^32\<close>
  entries no two generated names of a run are equal. One name is announced for every
  entry the run reaches, all of them when it returns.
\<close>

theorem generated_names_sequential:
  assumes "names = saving_names (messages (dump_files depack fopen_ok header stringEntries es f 0 []))"
  shows "(\<forall>i < length names. Crc (es ! i) \<notin> fst ` set stringEntries \<longrightarrow>
            names ! i =
              sprintf_08X (length (filter (generated stringEntries) (take i es))) @ ''.unknown_file'') \<and>
         (length es \<le> 2 ^ 32 \<longrightarrow>
            (\<forall>i j. i < j \<and> j < length names \<and>
               generated stringEntries (es ! i) \<and> generated stringEntries (es ! j) \<longrightarrow>
               names ! i \<noteq> names ! j)) \<and>
         length names \<le> length es \<and>
         (\<forall>f' ms. dump_files depack fopen_ok header stringEntries es f 0 [] = Returned f' ms \<longrightarrow>
            length names = length es)"
proof -
  from dump_files_trace [of es depack fopen_ok header stringEntries f 0 "[]"]
  obtain n where n: "n \<le> length es"
    and nm: "names = map c_str (take n (entry_names stringEntries es 0))"
    and ret: "\<forall>f' ms. dump_files depack fopen_ok header stringEntries es f 0 [] = Returned f' ms \<longrightarrow>
        n = length es"
    unfolding assms by auto
  have len: "length names = n"
    using n nm by simp
  have gen: "names ! i =
      sprintf_08X (length (filter (generated stringEntries) (take i es))) @ ''.unknown_file''"
    if "i < length names" and "generated stringEntries (es ! i)" for i
  proof -
    have "i < length es"
      using that(1) len n by simp
    then have "entry_names stringEntries es 0 ! i =
        sprintf_08X (length (filter (generated stringEntries) (take i es))) @ ''.unknown_file''"
      using entry_names_nth [of i es stringEntries 0] that(2) by simp
    then show ?thesis
      using that(1) len nm by simp
  qed
  have uniq: "names ! i \<noteq> names ! j"
    if "length es \<le> 2 ^ 32" and "i < j" and "j < length names"
      and "generated stringEntries (es ! i)" and "generated stringEntries (es ! j)" for i j
  proof
    assume eq: "names ! i = names ! j"
    define ci where "ci = length (filter (generated stringEntries) (take i es))"
    define cj where "cj = length (filter (generated stringEntries) (take j es))"
    have jl: "j < length es"
      using that(3) len n by simp
    have "sprintf_08X ci @ ''.unknown_file'' = sprintf_08X cj @ ''.unknown_file''"
      using eq gen [of i] gen [of j] that by (simp add: ci_def cj_def)
    then have "sprintf_08X ci = sprintf_08X cj"
      by simp
    then have m: "ci mod 2 ^ 32 = cj mod 2 ^ 32"
      by (rule sprintf_08X_inj)
    have lt: "ci < cj"
      unfolding ci_def cj_def
      using count_generated_less [of i j es stringEntries] that(2,4) jl by simp
    have "cj \<le> j"
      unfolding cj_def
      using length_filter_le [of "generated stringEntries" "take j es"] by simp
    then have "cj < 2 ^ 32"
      using jl that(1) by simp
    with lt m show False
      by simp
  qed
  show ?thesis
    using gen uniq len n ret not_in_table_generated by blast
qed

theorem generated_names_sequential_witness:
  "saving_names (messages (dump_files no_depack (\<lambda>p. True) karl_pakheader []
      [(1, 0, 0), (2, 0, 0), (3, 0, 0)] empty_file 0 [])) =
     [''00000000.unknown_file'', ''00000001.unknown_file'', ''00000002.unknown_file''] \<and>
   ''00000000.unknown_file'' \<noteq> ''00000001.unknown_file''"
proof -
  define names where "names = saving_names (messages (dump_files no_depack (\<lambda>p. True)
      karl_pakheader [] [(1, 0, 0), (2, 0, 0), (3, 0, 0)] empty_file 0 []))"
  have run: "\<exists>f' ms. dump_files no_depack (\<lambda>p. True) karl_pakheader []
      [(1, 0, 0), (2, 0, 0), (3, 0, 0)] empty_file 0 [] = Returned f' ms"
    by (simp add: empty_file_def entry_name_def Position_def save_compressed_file_empty_file)
  have gen: "generated [] e" for e
    by (simp add: generated_def)
  note seq = generated_names_sequential [OF names_def]
  have len: "length names = 3"
    using seq run by auto
  have "names ! 0 = ''00000000.unknown_file''" "names ! 1 = ''00000001.unknown_file''"
    "names ! 2 = ''00000002.unknown_file''"
    using seq len by (simp_all add: gen sprintf_08X_def hex_digit_def)
  moreover have "names ! 0 \<noteq> names ! 1"
  proof -
    have "length [(1 :: u32, 0 :: u32, 0 :: u32), (2, 0, 0), (3, 0, 0)] \<le> 2 ^ 32"
      by simp
    with seq gen have "\<forall>i j. i < j \<and> j < length names \<longrightarrow> names ! i \<noteq> names ! j"
      by blast
    moreover have "(0 :: nat) < 1 \<and> 1 < length names"
      using len by simp
    ultimately show ?thesis
      by blast
  qed
  ultimately show ?thesis
    using len unfolding names_def [symmetric]
    by (auto simp: list_eq_iff_nth_eq less_Suc_eq eval_nat_numeral)
qed

text \<open>
  The claim as stated counts only the entries without a record. With the table
  \<open>[(1, empty name)]\<close> and the entries with ids 1 and 2, the entry with id 2 is the first
  one without a record, and it is named \<open>00000001.unknown_file\<close>.
\<close>

theorem generated_names_counterexample:
  "Crc (2, 0, 0) \<notin> fst ` set [(1 :: u32, [])] \<and>
   filter (\<lambda>e. Crc e \<notin> fst ` set [(1 :: u32, [])]) (take 1 [(1, 0, 0), (2, 0, 0)]) = [] \<and>
   saving_names (messages (dump_files no_depack (\<lambda>p. True) karl_pakheader [(1, [])]
      [(1, 0, 0), (2, 0, 0)] empty_file 0 [])) ! 1 = ''00000001.unknown_file''"
  by (simp add: empty_file_def entry_name_def Position_def Crc_def save_compressed_file_empty_file
      sprintf_08X_def hex_digit_def c_str_def)

lemma seeks_read_entry [simp]: "seeks (snd (read_entry f)) = seeks f"
  by (simp add: read_entry_def case_prod_beta)

lemma seeks_read_entries [simp]: "seeks (snd (read_entries n f es)) = seeks f"
proof (induction n f es rule: read_entries.induct)
  case (1 n f es)
  show ?case
    using "1.IH" [of "fst (read_entry f)" "snd (read_entry f)"]
    by (subst read_entries.simps) (simp add: case_prod_beta)
qed

lemma read_entries_not_Nil [simp]: "fst (read_entries n f es) \<noteq> []"
proof (induction n f es rule: read_entries.induct)
  case (1 n f es)
  show ?case
    using "1.IH" [of "fst (read_entry f)" "snd (read_entry f)"]
    by (subst read_entries.simps) (simp add: case_prod_beta)
qed

lemma seeks_read_names_snd:
  assumes "read_names f tSize sSize stringEntries = Some y"
  shows "seeks (snd y) = seeks f"
proof (rule read_names.raw_induct
    [where P = "\<lambda>f tSize sSize stringEntries y. seeks (snd y) = seeks f", OF _ assms])
  fix rn :: "FILE \<Rightarrow> u32 \<Rightarrow> u32 \<Rightarrow> string_entry list \<Rightarrow> (string_entry list \<times> FILE) option"
    and f tSize sSize stringEntries y
  assume IH: "\<And>f tSize sSize stringEntries y.
      rn f tSize sSize stringEntries = Some y \<Longrightarrow> seeks (snd y) = seeks f"
  assume body: "(case fread f sizeof_pakfilename_t of
      (bs, f1) \<Rightarrow>
        (case fread f1 (unat (le32 (take 4 (drop 4 bs)))) of
           (raw, f2) \<Rightarrow>
             if sSize + 8 + le32 (take 4 (drop 4 bs)) < tSize
             then rn f2 tSize (sSize + 8 + le32 (take 4 (drop 4 bs)))
                    (stringEntries @ [(le32 (take 4 bs), map to_char raw)])
             else Some (stringEntries @ [(le32 (take 4 bs), map to_char raw)], f2))) = Some y"
  define f2 where "f2 = snd (fread (snd (fread f sizeof_pakfilename_t))
      (unat (le32 (take 4 (drop 4 (fst (fread f sizeof_pakfilename_t)))))))"
  have f2: "seeks f2 = seeks f"
    by (simp add: f2_def)
  show "seeks (snd y) = seeks f"
  proof (cases "sSize + 8 + le32 (take 4 (drop 4 (fst (fread f sizeof_pakfilename_t)))) < tSize")
    case True
    with body have "\<exists>s' acc'. rn f2 tSize s' acc' = Some y"
      by (auto simp: case_prod_beta f2_def)
    then have "seeks (snd y) = seeks f2"
      using IH by blast
    then show ?thesis
      using f2 by simp
  next
    case False
    with body have "snd y = f2"
      by (auto simp: case_prod_beta f2_def)
    then show ?thesis
      using f2 by simp
  qed
qed

lemma seeks_read_names:
  "read_names f tSize sSize stringEntries = Some (st, f') \<Longrightarrow> seeks f' = seeks f"
  using seeks_read_names_snd [of f tSize sSize stringEntries "(st, f')"] by simp

lemma seeks_read_entry_table:
  "read_entry_table std_sort f header = (eCount, sCount, es, f3) \<Longrightarrow>
   seeks f3 = seeks f @ [unat (EntriesOffset header)]"
  by (auto simp: read_entry_table_def case_prod_beta split: if_splits)

lemma read_entry_table_no_entries:
  "read_entry_table std_sort f header = (eCount, sCount, es, f3) \<Longrightarrow> \<not> 0 < eCount \<Longrightarrow> es = []"
  by (auto simp: read_entry_table_def case_prod_beta split: if_splits)

lemma process_pak_karl_trace:
  assumes size: "fileSize \<noteq> 0" and valid: "IsValid header \<noteq> 0"
    and tab: "read_entry_table std_sort f header = (eCount, sCount, es, f3)"
    and run: "process_pak_karl std_sort depack fopen_ok f fileSize header = Some out"
  shows "\<exists>n st. n \<le> length (butlast es) \<and>
           seeks (final_file out) =
             seeks f @ unat (EntriesOffset header) #
               map (byte_offset header) (if es = [] then [] else last es # take n (butlast es)) \<and>
           saving_names (messages out) = map c_str (take n (entry_names st (butlast es) 0)) \<and>
           (\<forall>f' ms. out = Returned f' ms \<and> ErrInvalidStringTable \<notin> set ms \<longrightarrow>
              n = length (butlast es))"
proof -
  define log where "log = (if 0 < sCount then [WarnSpecialEntries] else [])"
  have log: "saving_names log = []"
    by (simp add: log_def)
  have f3: "seeks f3 = seeks f @ [unat (EntriesOffset header)]"
    using tab by (rule seeks_read_entry_table)
  show ?thesis
  proof (cases "0 < eCount")
    case False
    then have es: "es = []"
      using tab by (rule read_entry_table_no_entries [rotated])
    have "out = Returned f3 log"
      using run size valid tab False es by (simp add: process_pak_karl_def log_def)
    then show ?thesis
      using f3 log es by (intro exI [of _ 0] exI [of _ "[]"]) simp
  next
    case True
    show ?thesis
    proof (cases "es = []")
      case True
      have "out = Crashed BackOfEmptyVector f3 log"
        using run size valid tab \<open>0 < eCount\<close> True by (simp add: process_pak_karl_def log_def)
      then show ?thesis
        using f3 log True by (intro exI [of _ 0] exI [of _ "[]"]) simp
    next
      case False
      obtain tSize f4 where r1: "read_u32 (fseeki64 f3
          (ucast (Position (last es)) * ucast (Unknown00 header))) = (tSize, f4)"
        by (cases "read_u32 (fseeki64 f3 (ucast (Position (last es)) * ucast (Unknown00 header)))")
      obtain unk00 f5 where r2: "read_u32 f4 = (unk00, f5)"
        by (cases "read_u32 f4")
      have "seeks f4 = seeks f3 @ [byte_offset header (last es)]"
        using seeks_read_u32 [of "fseeki64 f3 (ucast (Position (last es)) * ucast (Unknown00 header))"]
          r1 by (simp add: unat_scaled byte_offset_def)
      moreover have "seeks f5 = seeks f4"
        using seeks_read_u32 [of f4] r2 by simp
      ultimately have f5: "seeks f5 = seeks f @ [unat (EntriesOffset header), byte_offset header (last es)]"
        using f3 by simp
      show ?thesis
      proof (cases "tSize = 0")
        case True
        then have "out = Returned f5 (log @ [ErrInvalidStringTable])"
          using run size valid tab \<open>0 < eCount\<close> \<open>es \<noteq> []\<close> r1 r2
          by (simp add: process_pak_karl_def log_def)
        then show ?thesis
          using f5 log \<open>es \<noteq> []\<close> by (intro exI [of _ 0] exI [of _ "[]"]) simp
      next
        case False
        then obtain st f6 where rn: "read_names f5 tSize 0 [] = Some (st, f6)"
          and out: "out = dump_files depack fopen_ok header st (butlast es) f6 0 log"
          using run size valid tab \<open>0 < eCount\<close> \<open>es \<noteq> []\<close> r1 r2
          by (auto simp: process_pak_karl_def log_def split: option.splits)
        have f6: "seeks f6 = seeks f5"
          using rn by (rule seeks_read_names)
        from dump_files_trace [of "butlast es" depack fopen_ok header st f6 0 log]
        obtain n where "n \<le> length (butlast es)"
          and "saving_names (messages out) = saving_names log @ map c_str (take n (entry_names st (butlast es) 0))"
          and "seeks (final_file out) = seeks f6 @ map (byte_offset header) (take n (butlast es))"
          and "\<forall>f' ms. out = Returned f' ms \<longrightarrow> n = length (butlast es)"
          unfolding out by blast
        then show ?thesis
          using f5 f6 log \<open>es \<noteq> []\<close> by (intro exI [of _ n] exI [of _ st]) simp
      qed
    qed
  qed
qed

lemma sorted_wrt_last:
  assumes "sorted_wrt P xs" and "x \<in> set (butlast xs)"
  shows "P x (last xs)"
proof -
  have "xs \<noteq> []"
    using assms(2) by auto
  then have "xs = butlast xs @ [last xs]"
    by simp
  then have "sorted_wrt P (butlast xs @ [last xs])"
    using assms(1) by simp
  then show ?thesis
    using assms(2) by (simp add: sorted_wrt_append)
qed

lemma read_entry_table_sorted:
  assumes "std_sort_contract std_sort"
    and "read_entry_table std_sort f header = (eCount, sCount, es, f3)"
    and "0 < eCount"
  shows "es \<noteq> []" and "\<forall>e \<in> set es. Position e \<le> Position (last es)"
    and "mset es = mset (fst (read_entries eCount
            (snd (read_u32 (snd (read_u32 (fseeki64 f (EntriesOffset header)))))) []))"
    and "sorted_wrt (\<lambda>a b. Position a \<le> Position b) es"
proof -
  define raw where "raw = fst (read_entries eCount
      (snd (read_u32 (snd (read_u32 (fseeki64 f (EntriesOffset header)))))) [])"
  have es: "es = std_sort raw"
    using assms(2,3) by (auto simp: read_entry_table_def case_prod_beta raw_def split: if_splits)
  have m: "mset es = mset raw" and s: "sorted_wrt (\<lambda>a b. \<not> Position b < Position a) es"
    using assms(1) unfolding es std_sort_contract_def by simp_all
  have "raw \<noteq> []"
    by (simp add: raw_def)
  with m show ne: "es \<noteq> []"
    by auto
  show "mset es = mset (fst (read_entries eCount
      (snd (read_u32 (snd (read_u32 (fseeki64 f (EntriesOffset header)))))) []))"
    using m by (simp add: raw_def)
  have eq: "(\<lambda>a b. \<not> Position b < Position a) = (\<lambda>a b. Position a \<le> Position b)"
    by (intro ext) (simp add: not_less)
  show "sorted_wrt (\<lambda>a b. Position a \<le> Position b) es"
    using s by (simp only: eq)
  show "\<forall>e \<in> set es. Position e \<le> Position (last es)"
  proof
    fix e
    assume "e \<in> set es"
    moreover have "set es = set (butlast es @ [last es])"
      using ne by simp
    ultimately have "e \<in> set (butlast es) \<or> e = last es"
      by auto
    then show "Position e \<le> Position (last es)"
    proof
      assume "e \<in> set (butlast es)"
      then have "\<not> Position (last es) < Position e"
        by (rule sorted_wrt_last [OF s])
      then show ?thesis
        by (simp add: not_less)
    next
      assume "e = last es"
      then show ?thesis
        by simp
    qed
  qed
qed

section \<open>The example archive, run step by step\<close>

lemma weapon_entries:
  "read_entries 2 \<lparr>content = weapon_pak, cursor = 40, seeks = [32]\<rparr> [] =
     ([(0, 5, 0), (7, 4, 2)], \<lparr>content = weapon_pak, cursor = 64, seeks = [32]\<rparr>)"
  apply (subst read_entries.simps)
  apply (subst read_entries.simps)
  apply (simp add: read_entry_def fread_def Let_def sizeof_pakfileentry_t_def weapon_pak_def)
  done

lemma weapon_entry_table:
  "read_entry_table (sort_key Position) \<lparr>content = weapon_pak, cursor = 32, seeks = []\<rparr>
     karl_pakheader =
     (2, 0, [(7, 4, 2), (0, 5, 0)], \<lparr>content = weapon_pak, cursor = 64, seeks = [32]\<rparr>)"
proof -
  have "read_u32 (fseeki64 \<lparr>content = weapon_pak, cursor = 32, seeks = []\<rparr> 32) =
      (2, \<lparr>content = weapon_pak, cursor = 36, seeks = [32]\<rparr>)"
    by (simp add: read_u32_def fread_def fseeki64_def Let_def weapon_pak_def)
  moreover have "read_u32 \<lparr>content = weapon_pak, cursor = 36, seeks = [32]\<rparr> =
      (0, \<lparr>content = weapon_pak, cursor = 40, seeks = [32]\<rparr>)"
    by (simp add: read_u32_def fread_def Let_def weapon_pak_def)
  ultimately show ?thesis
    by (simp add: read_entry_table_def karl_pakheader_def weapon_entries Position_def)
qed


lemma weapon_names:
  "read_names \<lparr>content = weapon_pak, cursor = 88, seeks = [32, 80]\<rparr> 18 0 [] =
     Some ([(7, ''weapon.dat'')], \<lparr>content = weapon_pak, cursor = 106, seeks = [32, 80]\<rparr>)"
  apply (subst read_names.simps)
  apply (simp add: fread_def Let_def sizeof_pakfilename_t_def weapon_pak_def
      to_char_def char_of_def bit_Suc_0_iff)
  done

lemma weapon_save:
  "save_compressed_file copy_depack (\<lambda>p. True)
     \<lparr>content = weapon_pak, cursor = 106, seeks = [32, 80]\<rparr> ''weapon.dat'' 64 2 =
     (None, \<lparr>content = weapon_pak, cursor = 78, seeks = [32, 80, 64]\<rparr>,
      [FileWritten ''dump//weapon.dat'' [0xAA, 0xBB]])"
  by (simp add: save_compressed_file_def read_u32_def fread_def fseeki64_def Let_def
      weapon_pak_def copy_depack_def c_str_def MAX_PATH_def)

lemma weapon_run:
  "process_pak_karl (sort_key Position) copy_depack (\<lambda>p. True)
     \<lparr>content = weapon_pak, cursor = 32, seeks = []\<rparr> 106 karl_pakheader =
     Some (Returned \<lparr>content = weapon_pak, cursor = 78, seeks = [32, 80, 64]\<rparr>
       [InfoSaving ''weapon.dat'', FileWritten ''dump//weapon.dat'' [0xAA, 0xBB]])"
proof -
  have hdr: "IsValid karl_pakheader \<noteq> 0" "Unknown00 karl_pakheader = 0x10"
    by (simp_all add: karl_pakheader_def)
  have t1: "read_u32 (fseeki64 \<lparr>content = weapon_pak, cursor = 64, seeks = [32]\<rparr> 80) =
      (18, \<lparr>content = weapon_pak, cursor = 84, seeks = [32, 80]\<rparr>)"
    by (simp add: read_u32_def fread_def fseeki64_def Let_def weapon_pak_def)
  have t2: "read_u32 \<lparr>content = weapon_pak, cursor = 84, seeks = [32, 80]\<rparr> =
      (0, \<lparr>content = weapon_pak, cursor = 88, seeks = [32, 80]\<rparr>)"
    by (simp add: read_u32_def fread_def Let_def weapon_pak_def)
  have name: "entry_name [(7, ''weapon.dat'')] (7, 4, 2) 0 = (''weapon.dat'', 0)"
    by (simp add: entry_name_def Crc_def)
  show ?thesis
    by (simp add: process_pak_karl_def weapon_entry_table hdr Position_def Size_def
        t1 t2 weapon_names name weapon_save c_str_def)
qed

section \<open>Sorts that meet the contract\<close>

lemma sort_key_contract: "std_sort_contract (sort_key Position)"
proof -
  have "sorted_wrt (\<lambda>a b. \<not> Position b < Position a) (sort_key Position xs)" for xs :: "file_entry list"
  proof -
    have "sorted (map Position (sort_key Position xs))"
      by (rule sorted_sort_key)
    then show ?thesis
      by (simp add: sorted_map not_less)
  qed
  then show ?thesis
    by (simp add: std_sort_contract_def)
qed

section \<open>Positions and byte offsets\<close>

text \<open>
  C9: every offset the run seeks to after the entry table is a stored position multiplied
  by the position scale of the header (\<open>Unknown00\<close>), computed in 64 bits without
  wrap-around: first the position of the last sorted entry, for the name table, then the
  positions of the remaining entries in order, one seek for each entry whose data block
  the run reaches. The seek history of the file after the run is exactly the entry table
  offset followed by these products; a run that returns without the name table error has
  reached every remaining entry.
\<close>

theorem positions_scaled_uniformly:
  assumes "fileSize \<noteq> 0" and "IsValid header \<noteq> 0"
    and "read_entry_table std_sort f header = (eCount, sCount, es, f3)"
    and "process_pak_karl std_sort depack fopen_ok f fileSize header = Some out"
  shows "\<exists>n \<le> length (butlast es).
           seeks (final_file out) =
             seeks f @ unat (EntriesOffset header) #
               map (\<lambda>e. unat (Position e) * unat (Unknown00 header))
                 (if es = [] then [] else last es # take n (butlast es)) \<and>
           (\<forall>f' ms. out = Returned f' ms \<and> ErrInvalidStringTable \<notin> set ms \<longrightarrow>
              n = length (butlast es))"
proof -
  have eq: "byte_offset header = (\<lambda>e. unat (Position e) * unat (Unknown00 header))"
    by (rule ext) (simp add: byte_offset_def)
  from process_pak_karl_trace [OF assms]
  obtain n where "n \<le> length (butlast es)"
    and "seeks (final_file out) =
      seeks f @ unat (EntriesOffset header) #
        map (byte_offset header) (if es = [] then [] else last es # take n (butlast es))"
    and "\<forall>f' ms. out = Returned f' ms \<and> ErrInvalidStringTable \<notin> set ms \<longrightarrow>
      n = length (butlast es)"
    by blast
  then show ?thesis
    unfolding eq by (intro exI [of _ n]) (simp only: simp_thms)
qed


theorem positions_scaled_uniformly_witness:
  "(106 :: nat) \<noteq> 0 \<and> IsValid karl_pakheader \<noteq> 0 \<and>
   read_entry_table (sort_key Position) \<lparr>content = weapon_pak, cursor = 32, seeks = []\<rparr>
     karl_pakheader =
     (2, 0, [(7, 4, 2), (0, 5, 0)], \<lparr>content = weapon_pak, cursor = 64, seeks = [32]\<rparr>) \<and>
   process_pak_karl (sort_key Position) copy_depack (\<lambda>p. True)
     \<lparr>content = weapon_pak, cursor = 32, seeks = []\<rparr> 106 karl_pakheader =
     Some (Returned \<lparr>content = weapon_pak, cursor = 78, seeks = [32, 80, 64]\<rparr>
       [InfoSaving ''weapon.dat'', FileWritten ''dump//weapon.dat'' [0xAA, 0xBB]]) \<and>
   [32, 80, 64] = [unat (EntriesOffset karl_pakheader), 5 * unat (Unknown00 karl_pakheader),
     4 * unat (Unknown00 karl_pakheader)]"
proof -
  have h1: "(106 :: nat) \<noteq> 0" and h2: "IsValid karl_pakheader \<noteq> 0"
    by (simp_all add: karl_pakheader_def)
  from positions_scaled_uniformly [OF h1 h2 weapon_entry_table weapon_run]
  have "[32, 80, 64] = [unat (EntriesOffset karl_pakheader), 5 * unat (Unknown00 karl_pakheader),
      4 * unat (Unknown00 karl_pakheader)]"
    by (auto simp: Position_def)
  then show ?thesis
    using h1 h2 weapon_entry_table weapon_run by simp
qed

section \<open>The name table locator\<close>

text \<open>
  C7: with an entry count above zero, the sorted entry sequence is not empty and its last
  entry has the highest position of all; the run takes this entry as the locator of the
  name table and seeks to its position times the position scale right after the entry
  table. The locator and the remaining entries together are the entries read. The data
  blocks the run then seeks to are those of the remaining entries, in order and without
  the locator, and one file name is announced for each of them that the run reaches: all
  of them when the run returns and the name table was not rejected for its size.
\<close>

theorem name_table_locator:
  assumes "std_sort_contract std_sort"
    and "fileSize \<noteq> 0" and "IsValid header \<noteq> 0"
    and "read_entry_table std_sort f header = (eCount, sCount, es, f3)"
    and "0 < eCount"
    and "process_pak_karl std_sort depack fopen_ok f fileSize header = Some out"
  shows "es \<noteq> [] \<and> (\<forall>e \<in> set es. Position e \<le> Position (last es)) \<and>
         mset (butlast es) + {#last es#} =
           mset (fst (read_entries eCount
             (snd (read_u32 (snd (read_u32 (fseeki64 f (EntriesOffset header)))))) [])) \<and>
         (\<exists>n \<le> length (butlast es).
            seeks (final_file out) =
              seeks f @ [unat (EntriesOffset header), byte_offset header (last es)] @
                map (byte_offset header) (take n (butlast es)) \<and>
            length (saving_names (messages out)) = n \<and>
            (\<forall>f' ms. out = Returned f' ms \<and> ErrInvalidStringTable \<notin> set ms \<longrightarrow>
               n = length (butlast es)))"
proof -
  have ne: "es \<noteq> []" and top: "\<forall>e \<in> set es. Position e \<le> Position (last es)"
    and all: "mset es = mset (fst (read_entries eCount
      (snd (read_u32 (snd (read_u32 (fseeki64 f (EntriesOffset header)))))) []))"
    using read_entry_table_sorted [OF assms(1,4,5)] by simp_all
  have "mset (butlast es @ [last es]) = mset es"
    using ne by simp
  then have parts: "mset (butlast es) + {#last es#} = mset (fst (read_entries eCount
      (snd (read_u32 (snd (read_u32 (fseeki64 f (EntriesOffset header)))))) []))"
    using all by simp
  from process_pak_karl_trace [OF assms(2,3,4,6)]
  obtain n st where n: "n \<le> length (butlast es)"
    and sk: "seeks (final_file out) =
      seeks f @ unat (EntriesOffset header) #
        map (byte_offset header) (if es = [] then [] else last es # take n (butlast es))"
    and nm: "saving_names (messages out) = map c_str (take n (entry_names st (butlast es) 0))"
    and ret: "\<forall>f' ms. out = Returned f' ms \<and> ErrInvalidStringTable \<notin> set ms \<longrightarrow>
      n = length (butlast es)"
    by blast
  have "length (saving_names (messages out)) = n"
    using nm n by simp
  moreover have "seeks (final_file out) =
      seeks f @ [unat (EntriesOffset header), byte_offset header (last es)] @
        map (byte_offset header) (take n (butlast es))"
    using sk ne by simp
  ultimately show ?thesis
    using ne top parts n ret by blast
qed

theorem name_table_locator_witness:
  "std_sort_contract (sort_key Position) \<and> (106 :: nat) \<noteq> 0 \<and> IsValid karl_pakheader \<noteq> 0 \<and>
   read_entry_table (sort_key Position) \<lparr>content = weapon_pak, cursor = 32, seeks = []\<rparr>
     karl_pakheader =
     (2, 0, [(7, 4, 2), (0, 5, 0)], \<lparr>content = weapon_pak, cursor = 64, seeks = [32]\<rparr>) \<and>
   (0 :: u32) < 2 \<and>
   process_pak_karl (sort_key Position) copy_depack (\<lambda>p. True)
     \<lparr>content = weapon_pak, cursor = 32, seeks = []\<rparr> 106 karl_pakheader =
     Some (Returned \<lparr>content = weapon_pak, cursor = 78, seeks = [32, 80, 64]\<rparr>
       [InfoSaving ''weapon.dat'', FileWritten ''dump//weapon.dat'' [0xAA, 0xBB]]) \<and>
   last [(7, 4, 2), (0, 5, 0 :: u32)] = (0 :: u32, 5 :: u32, 0) \<and>
   Position (7, 4, 2) \<le> Position (0, 5, 0) \<and>
   byte_offset karl_pakheader (0, 5, 0) = 80 \<and>
   byte_offset karl_pakheader (7, 4, 2) = 64"
proof -
  have h1: "(106 :: nat) \<noteq> 0" and h2: "IsValid karl_pakheader \<noteq> 0" and h3: "(0 :: u32) < 2"
    by (simp_all add: karl_pakheader_def)
  from name_table_locator [OF sort_key_contract h1 h2 weapon_entry_table h3 weapon_run]
  have "Position (7, 4, 2) \<le> Position (0, 5, 0)"
    by simp
  moreover have "byte_offset karl_pakheader (0, 5, 0) = 80" "byte_offset karl_pakheader (7, 4, 2) = 64"
    by (simp_all add: byte_offset_def karl_pakheader_def Position_def)
  ultimately show ?thesis
    using sort_key_contract h1 h2 h3 weapon_entry_table weapon_run by simp
qed

section \<open>The order of the entry table\<close>















section \<open>The name table loop\<close>

lemma records_size_Nil [simp]: "records_size [] = 0"
  by (simp add: records_size_def)

lemma records_size_Cons [simp]: "records_size (r # rs) = 8 + length (snd r) + records_size rs"
  by (simp add: records_size_def)

lemma records_size_pos: "rs \<noteq> [] \<Longrightarrow> 0 < records_size rs"
  by (cases rs) simp_all

lemma unat_add_name:
  fixes sSize ns :: u32
  assumes "unat sSize + 8 + unat ns < 2 ^ 32"
  shows "unat (sSize + 8 + ns) = unat sSize + 8 + unat ns"
proof -
  have "unat sSize + unat (8 :: u32) < 2 ^ LENGTH(32)"
    using assms by simp
  then have a: "unat (sSize + 8) = unat sSize + 8"
    by (simp only: unat_add_lem) simp
  then have "unat (sSize + 8) + unat ns < 2 ^ LENGTH(32)"
    using assms by simp
  then have "unat (sSize + 8 + ns) = unat (sSize + 8) + unat ns"
    by (simp only: unat_add_lem)
  then show ?thesis
    using a by simp
qed

lemma read_names_records:
  assumes "records \<noteq> []"
    and "records_at (content f) (cursor f) records"
    and "unat sSize + records_size records = unat tSize"
  shows "read_names f tSize sSize stringEntries =
           Some (stringEntries @ records, f\<lparr>cursor := cursor f + records_size records\<rparr>)"
  using assms
proof (induction records arbitrary: f sSize stringEntries)
  case Nil
  then show ?case by simp
next
  case (Cons r rs)
  define bs where "bs = content f"
  define c where "c = cursor f"
  define ns where "ns = le32 (take 4 (drop (c + 4) bs))"
  have inside: "c + 8 + length (snd r) \<le> length bs"
    and fid: "le32 (take 4 (drop c bs)) = fst r"
    and len: "unat ns = length (snd r)"
    and name: "map to_char (take (length (snd r)) (drop (c + 8) bs)) = snd r"
    and rest: "records_at bs (c + 8 + length (snd r)) rs"
    using Cons.prems(2) by (simp_all add: bs_def c_def ns_def)
  have hd: "fread f sizeof_pakfilename_t = (take 8 (drop c bs), f\<lparr>cursor := c + 8\<rparr>)"
    using inside by (simp add: fread_whole sizeof_pakfilename_t_def bs_def c_def)
  have h1: "take 4 (take 8 (drop c bs)) = take 4 (drop c bs)"
    by simp
  have h2: "take 4 (drop 4 (take 8 (drop c bs))) = take 4 (drop (c + 4) bs)"
    by (simp add: drop_take add.commute)
  have nm: "fread (f\<lparr>cursor := c + 8\<rparr>) (length (snd r)) =
      (take (length (snd r)) (drop (c + 8) bs), f\<lparr>cursor := c + 8 + length (snd r)\<rparr>)"
    using inside by (simp add: fread_whole bs_def)
  have bound: "unat tSize < 2 ^ 32"
    using unsigned_less [of tSize, where ?'a = nat] by simp
  have total: "unat sSize + 8 + unat ns + records_size rs = unat tSize"
    using Cons.prems(3) len by simp
  then have "unat sSize + 8 + unat ns < 2 ^ 32"
    using bound by simp
  then have s': "unat (sSize + 8 + ns) = unat sSize + 8 + unat ns"
    by (rule unat_add_name)
  have r: "(fst r, snd r) = r"
    by simp
  show ?case
  proof (cases "rs = []")
    case True
    then have "unat (sSize + 8 + ns) = unat tSize"
      using total s' by simp
    then have "\<not> sSize + 8 + ns < tSize"
      by (simp add: word_less_nat_alt)
    then show ?thesis
      using True len
      by (subst read_names.simps) (simp add: hd h1 h2 nm fid name ns_def [symmetric] c_def [symmetric])
  next
    case False
    then have "0 < records_size rs"
      by (rule records_size_pos)
    then have "unat (sSize + 8 + ns) < unat tSize"
      using total s' by simp
    then have lt: "sSize + 8 + ns < tSize"
      by (simp add: word_less_nat_alt)
    have "read_names (f\<lparr>cursor := c + 8 + length (snd r)\<rparr>) tSize (sSize + 8 + ns)
        (stringEntries @ [r]) =
      Some ((stringEntries @ [r]) @ rs,
        f\<lparr>cursor := c + 8 + length (snd r)\<rparr>
          \<lparr>cursor := cursor (f\<lparr>cursor := c + 8 + length (snd r)\<rparr>) + records_size rs\<rparr>)"
    proof (rule Cons.IH [OF False])
      show "records_at (content (f\<lparr>cursor := c + 8 + length (snd r)\<rparr>))
          (cursor (f\<lparr>cursor := c + 8 + length (snd r)\<rparr>)) rs"
        using rest by (simp add: bs_def)
      show "unat (sSize + 8 + ns) + records_size rs = unat tSize"
        using total s' by simp
    qed
    then show ?thesis
      using lt len
      by (subst read_names.simps)
        (simp add: hd h1 h2 nm fid name ns_def [symmetric] c_def [symmetric] add.assoc)
  qed
qed

text \<open>
  C3: for a table size above zero and a sequence of well-formed name records that lies in
  the file from the cursor on and whose byte lengths (8 plus the name length each) add up
  to exactly the table size, the name loop ends: it returns exactly these records, in
  order, and leaves the cursor exactly at the end of the table, so no byte of a further
  record has been read.
\<close>

theorem name_table_loop_terminates:
  assumes "0 < tSize"
    and "records_at (content f) (cursor f) records"
    and "records_size records = unat tSize"
  shows "read_names f tSize 0 [] = Some (records, f\<lparr>cursor := cursor f + unat tSize\<rparr>)"
proof -
  have "records \<noteq> []"
  proof
    assume "records = []"
    then have "unat tSize = 0"
      using assms(3) by simp
    then show False
      using assms(1) by (simp add: unat_eq_zero)
  qed
  then show ?thesis
    using read_names_records [of records f 0 tSize "[]"] assms(2,3) by simp
qed

theorem name_table_loop_terminates_witness:
  "(0 :: u32) < 19 \<and>
   records_at (content names_file) (cursor names_file) [(1, ''a''), (2, ''bc'')] \<and>
   records_size [(1 :: u32, ''a''), (2, ''bc'')] = unat (19 :: u32) \<and>
   read_names names_file 19 0 [] =
     Some ([(1, ''a''), (2, ''bc'')], names_file\<lparr>cursor := 19\<rparr>)"
proof -
  have h1: "(0 :: u32) < 19"
    by simp
  have h2: "records_at (content names_file) (cursor names_file) [(1, ''a''), (2, ''bc'')]"
    by (simp add: names_file_def to_char_def char_of_def bit_Suc_0_iff)
  have h3: "records_size [(1 :: u32, ''a''), (2, ''bc'')] = unat (19 :: u32)"
    by simp
  show ?thesis
    using name_table_loop_terminates [OF h1 h2 h3] h1 h2 h3
    by (simp add: names_file_def)
qed

section \<open>The layout of a chunked payload\<close>

lemma reads_from_cursor [simp]: "reads_from f (content f) (cursor f)"
  by (simp add: reads_from_def)

lemma fread_reads_from:
  assumes "reads_from f bs c"
  shows "fst (fread f n) = slice bs c n" and "reads_from (snd (fread f n)) bs (c + n)"
proof -
  have bs: "content f = bs" and d: "drop (cursor f) bs = drop c bs"
    using assms by (simp_all add: reads_from_def)
  show "fst (fread f n) = slice bs c n"
    by (simp add: fread_def Let_def slice_def bs d)
  have "drop (cursor f + length (take n (drop c bs))) bs = drop (c + n) bs"
  proof (cases "n \<le> length (drop c bs)")
    case True
    then have "length (take n (drop c bs)) = n"
      by simp
    moreover have "drop (cursor f + n) bs = drop n (drop (cursor f) bs)"
      by (simp add: add.commute)
    moreover have "drop (c + n) bs = drop n (drop c bs)"
      by (simp add: add.commute)
    ultimately show ?thesis
      using d by simp
  next
    case False
    then have l: "length (take n (drop c bs)) = length (drop c bs)"
      by simp
    have "drop (cursor f + length (drop c bs)) bs = drop (length (drop c bs)) (drop (cursor f) bs)"
      by (simp add: add.commute)
    also have "\<dots> = []"
      using d by simp
    finally have "drop (cursor f + length (take n (drop c bs))) bs = []"
      using l by simp
    moreover have "drop (c + n) bs = []"
      using False by simp
    ultimately show ?thesis
      by simp
  qed
  then show "reads_from (snd (fread f n)) bs (c + n)"
    by (simp add: fread_def Let_def reads_from_def bs d)
qed

lemma read_u32_reads_from:
  assumes "reads_from f bs c"
  shows "fst (read_u32 f) = le32 (slice bs c 4)" and "reads_from (snd (read_u32 f)) bs (c + 4)"
  using fread_reads_from [OF assms, of 4] by (simp_all add: read_u32_def case_prod_beta)

lemma read_chunk_sizes_reads_from:
  assumes "reads_from f bs c"
  shows "fst (read_chunk_sizes n f acc) = acc @ map (\<lambda>i. le32 (slice bs (c + 4 * i) 4)) [0..<n] \<and>
         reads_from (snd (read_chunk_sizes n f acc)) bs (c + 4 * n)"
  using assms
proof (induction n arbitrary: f c acc)
  case 0
  then show ?case by simp
next
  case (Suc n)
  note r = read_u32_reads_from [OF Suc.prems]
  have "map (\<lambda>i. le32 (slice bs (c + 4 * i) 4)) [0..<Suc n] =
      le32 (slice bs c 4) # map (\<lambda>i. le32 (slice bs (c + 4 + 4 * i) 4)) [0..<n]"
    by (simp add: upt_conv_Cons map_Suc_upt [symmetric] add.assoc del: upt_Suc)
  then show ?case
    using Suc.IH [OF r(2), of "acc @ [fst (read_u32 f)]"] r(1)
    by (simp add: case_prod_beta add.assoc del: upt_Suc)
qed

lemma depack_chunks_reads_from:
  assumes "reads_from f bs c"
  shows "fst (depack_chunks depack sizes f fileData) =
           (if \<forall>chunk \<in> set (chunk_buffers bs c sizes). reported_length depack chunk \<le> 4096
            then None else Some DepackOverrun) \<and>
         ((\<forall>chunk \<in> set (chunk_buffers bs c sizes). reported_length depack chunk \<le> 4096) \<longrightarrow>
            fst (snd (depack_chunks depack sizes f fileData)) =
              fileData @ concat (map (depacked depack) (chunk_buffers bs c sizes)))"
  using assms
proof (induction sizes arbitrary: f c fileData)
  case Nil
  then show ?case by simp
next
  case (Cons s ss)
  note r = fread_reads_from [OF Cons.prems, of "unat s"]
  define chunk where "chunk = slice bs c (unat s)"
  obtain decSize bufferDec where d: "depack chunk (replicate 4096 0) = (decSize, bufferDec)"
    by (cases "depack chunk (replicate 4096 0)")
  have rl: "reported_length depack chunk = unat decSize"
    by (simp add: reported_length_def d)
  have dp: "depacked depack chunk = take (unat decSize) bufferDec"
    by (simp add: depacked_def d)
  show ?case
  proof (cases "4096 < unat decSize")
    case True
    then show ?thesis
      using r(1) d rl by (auto simp: case_prod_beta chunk_def)
  next
    case False
    then have step: "depack_chunks depack (s # ss) f fileData =
        depack_chunks depack ss (snd (fread f (unat s))) (fileData @ take (unat decSize) bufferDec)"
      using r(1) d by (simp add: case_prod_beta chunk_def)
    show ?thesis
      unfolding step
      using Cons.IH [OF r(2), of "fileData @ take (unat decSize) bufferDec"] False rl dp
      by (simp add: chunk_def)
  qed
qed

lemma save_compressed_file_layout:
  fixes f :: FILE and name :: string and depack :: depacker and c :: nat
  assumes "c = cursor (fseeki64 f offset)"
  defines "bs \<equiv> content f"
  defines "path \<equiv> ''dump//'' @ c_str name"
  defines "data \<equiv> concat (map (depacked depack) (compressed_chunks (content f) c))"
  shows "fst (save_compressed_file depack fopen_ok f name offset sz) =
           (if \<not> 0 < chunk_count bs c then None
            else if \<not> (\<forall>chunk \<in> set (compressed_chunks bs c). reported_length depack chunk \<le> 4096)
            then Some DepackOverrun
            else if MAX_PATH \<le> length path then Some SprintfOverflow
            else None)"
    and "snd (snd (save_compressed_file depack fopen_ok f name offset sz)) =
           (if 0 < chunk_count bs c \<and>
               (\<forall>chunk \<in> set (compressed_chunks bs c). reported_length depack chunk \<le> 4096) \<and>
               length path < MAX_PATH
            then (if fopen_ok path then [FileWritten path data] else [ErrDumpFailed path])
            else [])"
proof -
  have "content (fseeki64 f offset) = bs"
    by (simp add: fseeki64_def bs_def)
  then have v0: "reads_from (fseeki64 f offset) bs c"
    by (simp add: reads_from_def assms(1))
  note r1 = read_u32_reads_from [OF v0]
  note r2 = read_u32_reads_from [OF r1(2)]
  define f2 where "f2 = snd (read_u32 (snd (read_u32 (fseeki64 f offset))))"
  have chunks: "fst (read_u32 (snd (read_u32 (fseeki64 f offset)))) = chunk_count bs c"
    using r2(1) by (simp add: chunk_count_def)
  have v2: "reads_from f2 bs (c + 8)"
    using r2(2) by (simp add: f2_def add.assoc)
  define n where "n = unat (chunk_count bs c)"
  note r3 = read_chunk_sizes_reads_from [OF v2, of n "[]"]
  have sizes: "fst (read_chunk_sizes n f2 []) = chunk_sizes bs c n"
    using r3 by (simp add: chunk_sizes_def)
  have v3: "reads_from (snd (read_chunk_sizes n f2 [])) bs (c + 8 + 4 * n)"
    using r3 by simp
  note r4 = depack_chunks_reads_from [OF v3, of depack "chunk_sizes bs c n" "[]"]
  have cc: "chunk_buffers bs (c + 8 + 4 * n) (chunk_sizes bs c n) = compressed_chunks bs c"
    by (simp add: compressed_chunks_def Let_def n_def)
  obtain cr fileData f4 where dc: "depack_chunks depack (chunk_sizes bs c n)
      (snd (read_chunk_sizes n f2 [])) [] = (cr, fileData, f4)"
    by (cases "depack_chunks depack (chunk_sizes bs c n) (snd (read_chunk_sizes n f2 [])) []")
  have cr: "cr = (if \<forall>chunk \<in> set (compressed_chunks bs c). reported_length depack chunk \<le> 4096
      then None else Some DepackOverrun)"
    using r4 dc cc by simp
  have fd: "(\<forall>chunk \<in> set (compressed_chunks bs c). reported_length depack chunk \<le> 4096) \<Longrightarrow>
      fileData = data"
    using r4 dc cc by (simp add: data_def bs_def)
  have unfold: "save_compressed_file depack fopen_ok f name offset sz =
      (if 0 < chunk_count bs c then
         (case cr of
            Some x \<Rightarrow> (Some x, f4, [])
          | None \<Rightarrow>
              if MAX_PATH \<le> length path then (Some SprintfOverflow, f4, [])
              else if fopen_ok path then (None, f4, [FileWritten path fileData])
              else (None, f4, [ErrDumpFailed path]))
       else (None, f2, []))"
    using chunks sizes dc
    by (simp add: save_compressed_file_def case_prod_beta Let_def f2_def [symmetric]
        n_def [symmetric] path_def split: option.split)
  show "fst (save_compressed_file depack fopen_ok f name offset sz) =
      (if \<not> 0 < chunk_count bs c then None
       else if \<not> (\<forall>chunk \<in> set (compressed_chunks bs c). reported_length depack chunk \<le> 4096)
       then Some DepackOverrun
       else if MAX_PATH \<le> length path then Some SprintfOverflow
       else None)"
    unfolding unfold using cr by (simp split: option.split)
  show "snd (snd (save_compressed_file depack fopen_ok f name offset sz)) =
      (if 0 < chunk_count bs c \<and>
          (\<forall>chunk \<in> set (compressed_chunks bs c). reported_length depack chunk \<le> 4096) \<and>
          length path < MAX_PATH
       then (if fopen_ok path then [FileWritten path data] else [ErrDumpFailed path])
       else [])"
    unfolding unfold using cr fd by (auto split: option.split simp: not_less)
qed

section \<open>The bytes of an output file\<close>

lemma read_chunk_sizes_numeral:
  "read_chunk_sizes (numeral k) f chunkSizes =
     (case read_u32 f of (chunk, f') \<Rightarrow>
        read_chunk_sizes (pred_numeral k) f' (chunkSizes @ [chunk]))"
  by (simp add: numeral_eq_Suc)

lemma two_chunk_save:
  "save_compressed_file copy_depack (\<lambda>p. True) two_chunk_file ''a.bin'' 0 3 =
     (None, two_chunk_file\<lparr>cursor := 19, seeks := [0]\<rparr>,
      [FileWritten ''dump//a.bin'' [0x11, 0x22, 0x33]])"
  by (simp add: save_compressed_file_def read_u32_def fread_def fseeki64_def Let_def
      two_chunk_file_def copy_depack_def c_str_def MAX_PATH_def read_chunk_sizes_numeral)

lemma two_chunk_layout:
  "compressed_chunks (content two_chunk_file) 0 = [[0x11], [0x22, 0x33]]"
  by (simp add: compressed_chunks_def chunk_count_def chunk_sizes_def slice_def Let_def
      two_chunk_file_def upt_conv_Cons)

text \<open>
  C4: whatever file \<open>save_compressed_file\<close> writes for an entry, its path is \<open>dump//\<close>
  followed by the name and its bytes are the concatenation, in chunk order, of what the
  decompressor yields for each compressed chunk of the payload, each cut to the length
  the decompressor reports. The file is written, and nothing else happens, whenever the
  chunk count is above zero, no reported length exceeds the 4096-byte buffer, the path
  fits and can be opened. The payload is the one at the entry's offset whenever that
  offset can be sought. For a payload with a single chunk the file is the decompressed
  form of that chunk.
\<close>

theorem output_is_concatenation:
  fixes f :: FILE and name :: string and depack :: depacker and c :: nat
  assumes "c = cursor (fseeki64 f offset)"
    and "save_compressed_file depack fopen_ok f name offset size' = (crash', f', ms)"
  shows "(\<forall>path data. FileWritten path data \<in> set ms \<longrightarrow>
            path = ''dump//'' @ c_str name \<and>
            data = concat (map (depacked depack) (compressed_chunks (content f) c))) \<and>
         (0 < chunk_count (content f) c \<and>
          (\<forall>chunk \<in> set (compressed_chunks (content f) c). reported_length depack chunk \<le> 4096) \<and>
          length (''dump//'' @ c_str name) < MAX_PATH \<and> fopen_ok (''dump//'' @ c_str name) \<longrightarrow>
            crash' = None \<and>
            ms = [FileWritten (''dump//'' @ c_str name)
                    (concat (map (depacked depack) (compressed_chunks (content f) c)))]) \<and>
         (unat offset < 2 ^ 63 \<longrightarrow> c = unat offset)"
proof -
  define path where "path = ''dump//'' @ c_str name"
  define data where "data = concat (map (depacked depack) (compressed_chunks (content f) c))"
  define fits where "fits \<longleftrightarrow> 0 < chunk_count (content f) c \<and>
      (\<forall>chunk \<in> set (compressed_chunks (content f) c). reported_length depack chunk \<le> 4096) \<and>
      length path < MAX_PATH"
  have cr: "crash' = fst (save_compressed_file depack fopen_ok f name offset size')"
    and ms: "ms = snd (snd (save_compressed_file depack fopen_ok f name offset size'))"
    using assms(2) by simp_all
  have msv: "ms = (if fits then (if fopen_ok path then [FileWritten path data]
      else [ErrDumpFailed path]) else [])"
    unfolding ms fits_def path_def data_def
    by (rule save_compressed_file_layout(2) [OF assms(1)])
  have crv: "fits \<Longrightarrow> crash' = None"
    unfolding cr save_compressed_file_layout(1) [OF assms(1)] fits_def path_def
    by (simp add: not_le)
  have a: "\<forall>p d. FileWritten p d \<in> set ms \<longrightarrow> p = path \<and> d = data"
  proof (intro allI impI)
    fix p d
    assume w: "FileWritten p d \<in> set ms"
    show "p = path \<and> d = data"
    proof (cases "fits \<and> fopen_ok path")
      case True
      then have "ms = [FileWritten path data]"
        using msv by simp
      with w show ?thesis
        by simp
    next
      case False
      then have "ms = [ErrDumpFailed path] \<or> ms = []"
        using msv by auto
      with w show ?thesis
        by auto
    qed
  qed
  have b: "fits \<and> fopen_ok path \<longrightarrow> crash' = None \<and> ms = [FileWritten path data]"
    using msv crv by simp
  have s: "unat offset < 2 ^ 63 \<longrightarrow> c = unat offset"
    using assms(1) by (simp add: fseeki64_def)
  show ?thesis
  proof (intro conjI)
    show "\<forall>path data. FileWritten path data \<in> set ms \<longrightarrow>
        path = ''dump//'' @ c_str name \<and>
        data = concat (map (depacked depack) (compressed_chunks (content f) c))"
      using a unfolding path_def data_def .
    show "0 < chunk_count (content f) c \<and>
        (\<forall>chunk \<in> set (compressed_chunks (content f) c). reported_length depack chunk \<le> 4096) \<and>
        length (''dump//'' @ c_str name) < MAX_PATH \<and> fopen_ok (''dump//'' @ c_str name) \<longrightarrow>
        crash' = None \<and>
        ms = [FileWritten (''dump//'' @ c_str name)
                (concat (map (depacked depack) (compressed_chunks (content f) c)))]"
      using b unfolding fits_def path_def data_def by (simp only: conj_assoc)
    show "unat offset < 2 ^ 63 \<longrightarrow> c = unat offset"
      by (rule s)
  qed
qed

theorem output_is_concatenation_witness:
  "0 = cursor (fseeki64 two_chunk_file 0) \<and>
   save_compressed_file copy_depack (\<lambda>p. True) two_chunk_file ''a.bin'' 0 3 =
     (None, two_chunk_file\<lparr>cursor := 19, seeks := [0]\<rparr>,
      [FileWritten ''dump//a.bin'' [0x11, 0x22, 0x33]]) \<and>
   compressed_chunks (content two_chunk_file) 0 = [[0x11], [0x22, 0x33]] \<and>
   depacked copy_depack [0x11] = [0x11] \<and> depacked copy_depack [0x22, 0x33] = [0x22, 0x33] \<and>
   [0x11, 0x22, 0x33] =
     concat (map (depacked copy_depack) (compressed_chunks (content two_chunk_file) 0)) \<and>
   64 = cursor (fseeki64 \<lparr>content = weapon_pak, cursor = 106, seeks = [32, 80]\<rparr> 64) \<and>
   save_compressed_file copy_depack (\<lambda>p. True)
     \<lparr>content = weapon_pak, cursor = 106, seeks = [32, 80]\<rparr> ''weapon.dat'' 64 2 =
     (None, \<lparr>content = weapon_pak, cursor = 78, seeks = [32, 80, 64]\<rparr>,
      [FileWritten ''dump//weapon.dat'' [0xAA, 0xBB]]) \<and>
   unat (chunk_count weapon_pak 64) = 1 \<and>
   [0xAA, 0xBB] = concat (map (depacked copy_depack) (compressed_chunks weapon_pak 64))"
proof -
  have c2: "0 = cursor (fseeki64 two_chunk_file 0)"
    by (simp add: fseeki64_def two_chunk_file_def)
  have cw: "64 = cursor (fseeki64 \<lparr>content = weapon_pak, cursor = 106, seeks = [32, 80]\<rparr> 64)"
    by (simp add: fseeki64_def)
  have d: "depacked copy_depack [0x11] = [0x11]" "depacked copy_depack [0x22, 0x33] = [0x22, 0x33]"
    by (simp_all add: depacked_def copy_depack_def)
  have n: "unat (chunk_count weapon_pak 64) = 1"
    by (simp add: chunk_count_def slice_def weapon_pak_def)
  have "[0x11, 0x22, 0x33] =
      concat (map (depacked copy_depack) (compressed_chunks (content two_chunk_file) 0))"
    using output_is_concatenation [OF c2 two_chunk_save, THEN conjunct1] by simp
  moreover have "[0xAA, 0xBB] = concat (map (depacked copy_depack) (compressed_chunks weapon_pak 64))"
    using output_is_concatenation [OF cw weapon_save, THEN conjunct1] by simp
  ultimately show ?thesis
    using c2 cw d n two_chunk_save two_chunk_layout weapon_save by (simp only: simp_thms)
qed

section \<open>Entries without chunks\<close>

text \<open>
  C6: when the chunk count in the payload header of an entry (the 32-bit value four bytes
  behind the offset the run has sought to) is zero, \<open>save_compressed_file\<close> ends without a
  crash and without any message: no file is opened or written and no output bytes are
  produced.
\<close>

theorem zero_chunks_no_output:
  assumes "chunk_count (content f) (cursor (fseeki64 f offset)) = 0"
  shows "fst (save_compressed_file depack fopen_ok f name offset size') = None \<and>
         snd (snd (save_compressed_file depack fopen_ok f name offset size')) = []"
  using assms by (simp add: save_compressed_file_layout [OF refl])

theorem zero_chunks_no_output_witness:
  "chunk_count (content no_chunk_file) (cursor (fseeki64 no_chunk_file 0)) = 0 \<and>
   save_compressed_file no_depack (\<lambda>p. True) no_chunk_file ''a.bin'' 0 3 =
     (None, no_chunk_file\<lparr>cursor := 8, seeks := [0]\<rparr>, [])"
proof -
  have h: "chunk_count (content no_chunk_file) (cursor (fseeki64 no_chunk_file 0)) = 0"
    by (simp add: chunk_count_def slice_def fseeki64_def no_chunk_file_def)
  have "snd (snd (save_compressed_file no_depack (\<lambda>p. True) no_chunk_file ''a.bin'' 0 3)) = []"
    using zero_chunks_no_output [OF h] by simp
  moreover have "save_compressed_file no_depack (\<lambda>p. True) no_chunk_file ''a.bin'' 0 3 =
      (None, no_chunk_file\<lparr>cursor := 8, seeks := [0]\<rparr>, [])"
    by (simp add: save_compressed_file_def read_u32_def fread_def fseeki64_def Let_def
        no_chunk_file_def)
  ultimately show ?thesis
    using h by simp
qed

section \<open>Looking up the name of an entry\<close>

lemma find_first_match:
  assumes "\<forall>x \<in> set pre. \<not> P x" and "P y"
  shows "find P (pre @ y # post) = Some y"
  using assms by (induction pre) simp_all

lemma find_no_match:
  "\<forall>x \<in> set xs. \<not> P x \<Longrightarrow> find P xs = None"
  by (induction xs) simp_all

text \<open>
  C2 (as amended): when the name table holds several records with the id of an entry, the
  lookup returns the name of the first of them, whatever follows it in the table; if
  that name is empty the entry gets the next generated name. \<open>entry_name\<close> returns a
  name for every table, so duplicate ids never end the run.
\<close>

theorem lookup_first_wins:
  assumes "stringEntries = pre @ (Crc e, name) # post"
    and "\<forall>se \<in> set pre. fst se \<noteq> Crc e"
  shows "entry_name stringEntries e unknownFileCount =
           (if name = [] then (sprintf_08X unknownFileCount @ ''.unknown_file'', unknownFileCount + 1)
            else (name, unknownFileCount))"
proof -
  have "find (\<lambda>se. fst se = Crc e) stringEntries = Some (Crc e, name)"
    unfolding assms(1) by (rule find_first_match) (use assms(2) in simp_all)
  then show ?thesis
    by (simp add: entry_name_def)
qed

theorem lookup_first_wins_witness:
  "[(2, ''other''), (1, ''first''), (1, ''last'')] = [(2, ''other'')] @ (Crc (1, 4, 0), ''first'') # [(1, ''last'')] \<and>
   fst (2 :: u32, ''other'') \<noteq> Crc (1, 4, 0) \<and>
   entry_name [(2, ''other''), (1, ''first''), (1, ''last'')] (1, 4, 0) 0 = (''first'', 0)"
  using lookup_first_wins [of "[(2, ''other''), (1, ''first''), (1, ''last'')]" "[(2, ''other'')]"
      "(1, 4, 0)" "''first''" "[(1, ''last'')]" 0]
  by (simp add: Crc_def)

text \<open>
  The claim as stated (the last record wins) fails on the name table of
  \<open>duplicate_names_file\<close>: the loop parses it to the records \<open>(1, a)\<close> and \<open>(1, b)\<close>, and
  the entry with id 1 is named \<open>a\<close>.
\<close>

theorem lookup_last_wins_counterexample:
  "read_names duplicate_names_file 18 0 [] =
     Some ([(1, ''a''), (1, ''b'')], duplicate_names_file\<lparr>cursor := 18\<rparr>) \<and>
   fst (entry_name [(1, ''a''), (1, ''b'')] (1, 4, 0) 0) = ''a'' \<and>
   fst (entry_name [(1, ''a''), (1, ''b'')] (1, 4, 0) 0) \<noteq> ''b''"
proof -
  have "records_at (content duplicate_names_file) (cursor duplicate_names_file)
      [(1, ''a''), (1, ''b'')]"
    by (simp add: duplicate_names_file_def to_char_def char_of_def bit_Suc_0_iff)
  then have "read_names duplicate_names_file 18 0 [] =
      Some ([] @ [(1, ''a''), (1, ''b'')],
        duplicate_names_file\<lparr>cursor := cursor duplicate_names_file +
          records_size [(1 :: u32, ''a''), (1, ''b'')]\<rparr>)"
    by (intro read_names_records) simp_all
  then show ?thesis
    by (simp add: duplicate_names_file_def entry_name_def Crc_def)
qed

text \<open>
  C10: an entry whose id is in the name table with an empty name (the first record with
  the id has length 0) gets the generated name for the current counter and the counter
  goes up by one, exactly as for the same entry with every record of its id removed from
  the table.
\<close>

theorem empty_name_is_unresolved:
  assumes "stringEntries = pre @ (Crc e, []) # post"
    and "\<forall>se \<in> set pre. fst se \<noteq> Crc e"
  shows "entry_name stringEntries e unknownFileCount =
           (sprintf_08X unknownFileCount @ ''.unknown_file'', unknownFileCount + 1) \<and>
         entry_name stringEntries e unknownFileCount =
           entry_name (filter (\<lambda>se. fst se \<noteq> Crc e) stringEntries) e unknownFileCount"
proof -
  have "find (\<lambda>se. fst se = Crc e) stringEntries = Some (Crc e, [])"
    unfolding assms(1) by (rule find_first_match) (use assms(2) in simp_all)
  moreover have "find (\<lambda>se. fst se = Crc e) (filter (\<lambda>se. fst se \<noteq> Crc e) stringEntries) = None"
    by (rule find_no_match) simp
  ultimately show ?thesis
    by (simp add: entry_name_def)
qed

theorem empty_name_is_unresolved_witness:
  "[(2, ''other''), (1, []), (1, ''late'')] = [(2, ''other'')] @ (Crc (1, 4, 0), []) # [(1, ''late'')] \<and>
   fst (2 :: u32, ''other'') \<noteq> Crc (1, 4, 0) \<and>
   entry_name [(2, ''other''), (1, []), (1, ''late'')] (1, 4, 0) 5 = (''00000005.unknown_file'', 6) \<and>
   entry_name [(2, ''other'')] (1, 4, 0) 5 = (''00000005.unknown_file'', 6)"
  using empty_name_is_unresolved [of "[(2, ''other''), (1, []), (1, ''late'')]" "[(2, ''other'')]"
      "(1, 4, 0)" "[(1, ''late'')]" 5]
  by (auto simp: Crc_def sprintf_08X_def hex_digit_def)

end
